theory Spec2Isabelle
  imports Main "HOL-Library.Word"
begin

section \<open>The SQLite3 port driver \<open>priv/sqlite3_drv.c\<close>\<close>

text \<open>
  The driver receives SQL text from the Erlang VM, runs it on an SQLite3 connection and
  answers with one term, written in the flattened \<open>ErlDrvTermData\<close> format of
  \<open>erl_driver.h\<close>. This theory embeds \<open>return_error\<close>, \<open>sql_exec\<close>,
  \<open>sql_exec_async\<close>, \<open>sql_free_async\<close> and \<open>ready_async\<close>, over an explicit
  heap, so that what the driver allocates, where its pointers point and what it hands
  to the VM can all be stated.

  Conventions. A C \<open>int\<close> is an Isabelle \<open>int\<close> between \<open>INT_MIN\<close> and \<open>INT_MAX\<close>:
  every value that the source computes for one of its counters (\<open>term_count\<close>,
  \<open>row_count\<close>, \<open>float_count\<close>, \<open>binaries_count\<close>) goes through \<open>checked\<close>, and
  a value out of that range is signed overflow, which is undefined behaviour. An
  \<open>ErlDrvTermData\<close> is a machine word of 64 bits (an LP64 platform). Allocation never
  fails (the driver does not test for it). The SQLite3 engine and the Erlang VM are not
  part of the driver; they are described below by what the driver observes of them.
\<close>

subsection \<open>Memory\<close>

type_synonym addr = nat
type_synonym byte = "8 word"

text \<open>The tags of \<open>erl_driver.h\<close> the driver uses.\<close>

datatype erl_drv_tag =
    ERL_DRV_NIL | ERL_DRV_ATOM | ERL_DRV_INT | ERL_DRV_PORT | ERL_DRV_BINARY
  | ERL_DRV_STRING | ERL_DRV_TUPLE | ERL_DRV_LIST | ERL_DRV_FLOAT

text \<open>
  One cell of an array the driver allocates: an \<open>ErlDrvTermData\<close> of the term buffer
  (a tag, an atom, a port, a number or a pointer), a \<open>double\<close> of the float pool (its 64
  bits), or an \<open>ErlDrvBinary*\<close> of the blob pool. \<open>FloatPtr a i\<close> is the address of
  element \<open>i\<close> of the block at \<open>a\<close>; \<open>CharPtr s\<close> points to a C string owned by
  someone else (a literal, or the engine's error message). Memory that \<open>realloc\<close> hands
  out is \<open>Indeterminate\<close> until written.
\<close>

datatype mword =
    Indeterminate
  | Tag erl_drv_tag
  | Atom string
  | Port nat
  | Num "64 word"
  | Double "64 word"
  | FloatPtr addr nat
  | BinaryPtr addr
  | CharPtr string

datatype block =
    Array "mword list"
  | Binary "byte list"
  | Statement
  | Command

text \<open>The terms the VM builds from a term buffer.\<close>

datatype eterm =
    EAtom string | EInt int | EPort nat | EFloat "64 word" | EBinary "byte list"
  | ENil | ECons eterm eterm | ETuple "eterm list"

definition elist :: "eterm list \<Rightarrow> eterm" where
  "elist xs = foldr ECons xs ENil"

definition estring :: "string \<Rightarrow> eterm" where
  "estring s = elist (map (\<lambda>c. EInt (of_char c)) s)"

subsection \<open>The engine, as the driver sees it\<close>

datatype cell =
    SQLITE_INTEGER "64 word"
  | SQLITE_FLOAT "64 word"
  | SQLITE_TEXT "byte list"
  | SQLITE_BLOB "byte list"
  | SQLITE_NULL

text \<open>
  A compiled statement is described by what the driver can observe of it: its SQL text,
  its column names, the rows that successive calls of \<open>sqlite3_step\<close> return with
  \<open>SQLITE_ROW\<close>, the first result code that is not \<open>SQLITE_ROW\<close> (\<open>final\<close>), the
  message \<open>sqlite3_errmsg\<close> gives after that code, and the value of
  \<open>sqlite3_last_insert_rowid\<close> once stepping is over. A result set is finite.
\<close>

record program =
  sql :: string
  column_names :: "string list"
  rows :: "cell list list"
  final :: int
  step_errmsg :: string
  last_insert_rowid :: "64 word"

record sqlite3_stmt = program +
  handle :: addr

datatype compiled =
    Compile_error int string
  | Compiled "program option"

definition SQLITE_OK :: int where "SQLITE_OK = 0"
definition SQLITE_BUSY :: int where "SQLITE_BUSY = 5"
definition SQLITE_MISUSE :: int where "SQLITE_MISUSE = 21"
definition SQLITE_ROW :: int where "SQLITE_ROW = 100"
definition SQLITE_DONE :: int where "SQLITE_DONE = 101"

subsection \<open>The driver's state\<close>

text \<open>\<open>sqlite3_drv_t\<close>; \<open>db\<close> is the open connection: what each SQL text compiles to.\<close>

record sqlite3_drv_t =
  port :: nat
  db :: "string \<Rightarrow> compiled"
  key :: nat
  async_handle :: nat

datatype stderr_line =
    Exec_line "string option"
  | Exec_total "addr option" int int int
  | Ready_total "addr option" int int int

text \<open>
  Everything outside the function's locals: the heap (live blocks by address), the next
  fresh address, the allocator's choice for each call of \<open>realloc\<close> on a live block
  (move it or grow it in place), the addresses released so far, whether undefined
  behaviour has occurred, the terms delivered to the port's owner, what was printed,
  the connection's current error message and the driver's own \<open>sqlite3_drv_t\<close>.
\<close>

record world =
  heap :: "addr \<rightharpoonup> block"
  brk :: addr
  relocates :: "nat \<Rightarrow> bool"
  reallocs :: nat
  released :: "addr list"
  crashed :: bool
  sent :: "(nat \<times> eterm) list"
  stderr :: "stderr_line list"
  db_errmsg :: string
  drv :: sqlite3_drv_t

definition alloc :: "block \<Rightarrow> world \<Rightarrow> addr \<times> world" where
  "alloc b w = (brk w, w\<lparr>heap := (heap w)(brk w \<mapsto> b), brk := Suc (brk w)\<rparr>)"

definition calloc :: "nat \<Rightarrow> world \<Rightarrow> addr option \<times> world" where
  "calloc n w = (case alloc (Array (replicate n (Num 0))) w of (a, w') \<Rightarrow> (Some a, w'))"

definition resize :: "nat \<Rightarrow> mword list \<Rightarrow> mword list" where
  "resize n xs = take n xs @ replicate (n - length xs) Indeterminate"

definition realloc :: "addr option \<Rightarrow> nat \<Rightarrow> world \<Rightarrow> addr option \<times> world" where
  "realloc p n w =
     (case p of
        None \<Rightarrow> (case alloc (Array (replicate n Indeterminate)) w of (a, w') \<Rightarrow> (Some a, w'))
      | Some a \<Rightarrow>
          (case heap w a of
             Some (Array xs) \<Rightarrow>
               (if relocates w (reallocs w)
                then (Some (brk w),
                      w\<lparr>heap := (heap w)(a := None, brk w \<mapsto> Array (resize n xs)),
                        brk := Suc (brk w), reallocs := Suc (reallocs w),
                        released := released w @ [a]\<rparr>)
                else (Some a,
                      w\<lparr>heap := (heap w)(a \<mapsto> Array (resize n xs)),
                        reallocs := Suc (reallocs w)\<rparr>))
           | _ \<Rightarrow> (None, w\<lparr>crashed := True\<rparr>)))"

text \<open>\<open>free\<close>, \<open>driver_free_binary\<close> and \<open>sqlite3_finalize\<close> release a live block.\<close>

definition free :: "addr option \<Rightarrow> world \<Rightarrow> world" where
  "free p w =
     (case p of
        None \<Rightarrow> w
      | Some a \<Rightarrow>
          (case heap w a of
             None \<Rightarrow> w\<lparr>crashed := True\<rparr>
           | Some b \<Rightarrow> w\<lparr>heap := (heap w)(a := None), released := released w @ [a]\<rparr>))"

text \<open>\<open>p[i] = v\<close> and \<open>p[i]\<close>; outside a live array the behaviour is undefined.\<close>

definition poke :: "addr option \<Rightarrow> int \<Rightarrow> mword \<Rightarrow> world \<Rightarrow> world" where
  "poke p i v w =
     (case p of
        None \<Rightarrow> w\<lparr>crashed := True\<rparr>
      | Some a \<Rightarrow>
          (case heap w a of
             Some (Array xs) \<Rightarrow>
               (if 0 \<le> i \<and> i < int (length xs)
                then w\<lparr>heap := (heap w)(a \<mapsto> Array (xs[nat i := v]))\<rparr>
                else w\<lparr>crashed := True\<rparr>)
           | _ \<Rightarrow> w\<lparr>crashed := True\<rparr>))"

definition peek :: "addr option \<Rightarrow> int \<Rightarrow> world \<Rightarrow> mword" where
  "peek p i w =
     (case p of
        None \<Rightarrow> Indeterminate
      | Some a \<Rightarrow>
          (case heap w a of
             Some (Array xs) \<Rightarrow> (if 0 \<le> i \<and> i < int (length xs) then xs ! nat i else Indeterminate)
           | _ \<Rightarrow> Indeterminate))"

text \<open>\<open>&p[i]\<close>.\<close>

definition elem_addr :: "addr option \<Rightarrow> int \<Rightarrow> mword" where
  "elem_addr p i = (case p of None \<Rightarrow> Indeterminate | Some a \<Rightarrow> FloatPtr a (nat i))"

text \<open>\<open>driver_alloc_binary\<close> and the \<open>memcpy\<close> into the binary's \<open>orig_bytes\<close>.\<close>

definition driver_alloc_binary :: "nat \<Rightarrow> world \<Rightarrow> mword \<times> world" where
  "driver_alloc_binary n w = (case alloc (Binary (replicate n 0)) w of (a, w') \<Rightarrow> (BinaryPtr a, w'))"

definition memcpy_orig_bytes :: "mword \<Rightarrow> byte list \<Rightarrow> nat \<Rightarrow> world \<Rightarrow> world" where
  "memcpy_orig_bytes p src n w =
     (case p of
        BinaryPtr a \<Rightarrow>
          (case heap w a of
             Some (Binary bs) \<Rightarrow>
               (if n \<le> length bs \<and> n \<le> length src
                then w\<lparr>heap := (heap w)(a \<mapsto> Binary (take n src @ drop n bs))\<rparr>
                else w\<lparr>crashed := True\<rparr>)
           | _ \<Rightarrow> w\<lparr>crashed := True\<rparr>)
      | _ \<Rightarrow> w\<lparr>crashed := True\<rparr>)"

definition driver_free_binary :: "mword \<Rightarrow> world \<Rightarrow> world" where
  "driver_free_binary p w =
     (case p of BinaryPtr a \<Rightarrow> free (Some a) w | _ \<Rightarrow> w\<lparr>crashed := True\<rparr>)"

text \<open>
  The value of an \<open>int\<close> expression: outside the range of a 32-bit \<open>int\<close> the
  behaviour is undefined. Indices into the term buffer are below \<open>term_count\<close> and
  need no check of their own.
\<close>

definition INT_MAX :: int where "INT_MAX = 2 ^ 31 - 1"

definition INT_MIN :: int where "INT_MIN = - (2 ^ 31)"

definition checked :: "int \<Rightarrow> world \<Rightarrow> int \<times> world" where
  "checked v w = (v, if INT_MIN \<le> v \<and> v \<le> INT_MAX then w else w\<lparr>crashed := True\<rparr>)"

definition fprintf_stderr :: "stderr_line \<Rightarrow> world \<Rightarrow> world" where
  "fprintf_stderr l w = w\<lparr>stderr := stderr w @ [l]\<rparr>"

subsection \<open>The engine's interface\<close>

text \<open>
  \<open>sqlite3_prepare_v2\<close>: a failure leaves no statement and sets the connection's
  message; a text with no statement in it (empty, or only a comment) compiles to the
  NULL statement; otherwise the statement handle is a fresh resource, to be released by
  \<open>sqlite3_finalize\<close>.
\<close>

definition prepared :: "addr \<Rightarrow> program \<Rightarrow> sqlite3_stmt" where
  "prepared a p = program.extend p (sqlite3_stmt.fields a)"

definition sqlite3_prepare_v2 ::
  "string \<Rightarrow> world \<Rightarrow> int \<times> sqlite3_stmt option \<times> world" where
  "sqlite3_prepare_v2 command w =
     (case db (drv w) command of
        Compile_error rc msg \<Rightarrow> (rc, None, w\<lparr>db_errmsg := msg\<rparr>)
      | Compiled None \<Rightarrow> (SQLITE_OK, None, w)
      | Compiled (Some p) \<Rightarrow>
          (case alloc Statement w of
             (a, w') \<Rightarrow> (SQLITE_OK, Some (prepared a p), w')))"

definition sqlite3_finalize :: "sqlite3_stmt option \<Rightarrow> world \<Rightarrow> world" where
  "sqlite3_finalize statement w =
     (case statement of None \<Rightarrow> w | Some st \<Rightarrow> free (Some (handle st)) w)"

definition sqlite3_errmsg :: "world \<Rightarrow> string" where
  "sqlite3_errmsg w = db_errmsg w"

definition sqlite3_column_count :: "sqlite3_stmt option \<Rightarrow> int" where
  "sqlite3_column_count statement =
     (case statement of None \<Rightarrow> 0 | Some st \<Rightarrow> int (length (column_names st)))"

definition sqlite3_column_name :: "sqlite3_stmt option \<Rightarrow> nat \<Rightarrow> string" where
  "sqlite3_column_name statement i =
     (case statement of
        None \<Rightarrow> []
      | Some st \<Rightarrow> (if i < length (column_names st) then column_names st ! i else []))"

definition sqlite3_sql :: "sqlite3_stmt option \<Rightarrow> string option" where
  "sqlite3_sql statement = (case statement of None \<Rightarrow> None | Some st \<Rightarrow> Some (sql st))"

text \<open>
  The rows \<open>sqlite3_step\<close> returns before its first other result code, and that code;
  stepping the NULL statement is \<open>SQLITE_MISUSE\<close>.
\<close>

definition step_rows :: "sqlite3_stmt option \<Rightarrow> cell list list" where
  "step_rows statement = (case statement of None \<Rightarrow> [] | Some st \<Rightarrow> rows st)"

definition step_final :: "sqlite3_stmt option \<Rightarrow> int" where
  "step_final statement = (case statement of None \<Rightarrow> SQLITE_MISUSE | Some st \<Rightarrow> final st)"

definition after_stepping :: "sqlite3_stmt option \<Rightarrow> world \<Rightarrow> world" where
  "after_stepping statement w =
     (case statement of None \<Rightarrow> w | Some st \<Rightarrow> w\<lparr>db_errmsg := step_errmsg st\<rparr>)"

definition sqlite3_last_insert_rowid :: "sqlite3_stmt option \<Rightarrow> 64 word" where
  "sqlite3_last_insert_rowid statement =
     (case statement of None \<Rightarrow> 0 | Some st \<Rightarrow> last_insert_rowid st)"

text \<open>The cell of column \<open>i\<close> of the current row (NULL outside the row).\<close>

definition column :: "cell list \<Rightarrow> nat \<Rightarrow> cell" where
  "column row i = (if i < length row then row ! i else SQLITE_NULL)"

text \<open>
  \<open>sqlite3_column_int\<close> returns a C \<open>int\<close>: the low 32 bits of the stored 64-bit
  integer, read as a signed number.
\<close>

definition sqlite3_column_int :: "64 word \<Rightarrow> int" where
  "sqlite3_column_int v = sint (ucast v :: 32 word)"

definition sqlite3_column_bytes :: "byte list \<Rightarrow> int" where
  "sqlite3_column_bytes bs = int (length bs)"

subsection \<open>The C library's \<open>strcasestr\<close>\<close>

definition tolower :: "char \<Rightarrow> char" where
  "tolower c = (let n = (of_char c :: nat) in if 65 \<le> n \<and> n \<le> 90 then char_of (n + 32) else c)"

definition prefix_nocase :: "string \<Rightarrow> string \<Rightarrow> bool" where
  "prefix_nocase needle hay =
     (length needle \<le> length hay \<and> map tolower (take (length needle) hay) = map tolower needle)"

fun strcasestr :: "string \<Rightarrow> string \<Rightarrow> bool" where
  "strcasestr [] needle = (needle = [])"
| "strcasestr (c # cs) needle = (prefix_nocase needle (c # cs) \<or> strcasestr cs needle)"

subsection \<open>The VM's reading of a term buffer: \<open>driver_output_term\<close>\<close>

text \<open>
  The buffer is read left to right with a stack: a value is pushed, \<open>ERL_DRV_TUPLE n\<close>
  replaces the \<open>n\<close> topmost terms by a tuple, \<open>ERL_DRV_LIST n\<close> replaces the \<open>n\<close>
  topmost terms by a list whose tail is the topmost one. Pointers are followed in the
  heap as it is at the call. The call succeeds when exactly one term is left.
\<close>

fun term_args :: "erl_drv_tag \<Rightarrow> nat" where
  "term_args ERL_DRV_NIL = 0"
| "term_args ERL_DRV_BINARY = 3"
| "term_args ERL_DRV_STRING = 2"
| "term_args _ = 1"

fun build_term :: "(addr \<rightharpoonup> block) \<Rightarrow> erl_drv_tag \<Rightarrow> mword list \<Rightarrow> eterm list \<Rightarrow> eterm list option" where
  "build_term h ERL_DRV_NIL args st = Some (ENil # st)"
| "build_term h ERL_DRV_ATOM args st =
     (case args of [Atom a] \<Rightarrow> Some (EAtom a # st) | _ \<Rightarrow> None)"
| "build_term h ERL_DRV_INT args st =
     (case args of [Num n] \<Rightarrow> Some (EInt (sint n) # st) | _ \<Rightarrow> None)"
| "build_term h ERL_DRV_PORT args st =
     (case args of [Port p] \<Rightarrow> Some (EPort p # st) | _ \<Rightarrow> None)"
| "build_term h ERL_DRV_BINARY args st =
     (case args of
        [BinaryPtr a, Num len, Num off] \<Rightarrow>
          (case h a of
             Some (Binary bs) \<Rightarrow>
               (if unat off + unat len \<le> length bs
                then Some (EBinary (take (unat len) (drop (unat off) bs)) # st)
                else None)
           | _ \<Rightarrow> None)
      | _ \<Rightarrow> None)"
| "build_term h ERL_DRV_STRING args st =
     (case args of
        [CharPtr s, Num len] \<Rightarrow>
          (if unat len \<le> length s then Some (estring (take (unat len) s) # st) else None)
      | _ \<Rightarrow> None)"
| "build_term h ERL_DRV_TUPLE args st =
     (case args of
        [Num n] \<Rightarrow>
          (if unat n \<le> length st
           then Some (ETuple (rev (take (unat n) st)) # drop (unat n) st)
           else None)
      | _ \<Rightarrow> None)"
| "build_term h ERL_DRV_LIST args st =
     (case args of
        [Num n] \<Rightarrow>
          (if 1 \<le> unat n \<and> unat n \<le> length st
           then Some (foldr ECons (rev (take (unat n - 1) (tl st))) (hd st) # drop (unat n) st)
           else None)
      | _ \<Rightarrow> None)"
| "build_term h ERL_DRV_FLOAT args st =
     (case args of
        [FloatPtr a i] \<Rightarrow>
          (case h a of
             Some (Array xs) \<Rightarrow>
               (if i < length xs
                then (case xs ! i of Double d \<Rightarrow> Some (EFloat d # st) | _ \<Rightarrow> None)
                else None)
           | _ \<Rightarrow> None)
      | _ \<Rightarrow> None)"

function driver_term :: "(addr \<rightharpoonup> block) \<Rightarrow> mword list \<Rightarrow> eterm list \<Rightarrow> eterm list option" where
  "driver_term h [] st = Some st"
| "driver_term h (x # xs) st =
     (case x of
        Tag t \<Rightarrow>
          (if length xs < term_args t then None
           else (case build_term h t (take (term_args t) xs) st of
                   None \<Rightarrow> None
                 | Some st' \<Rightarrow> driver_term h (drop (term_args t) xs) st'))
      | _ \<Rightarrow> None)"
  by pat_completeness auto
termination
  by (relation "measure (\<lambda>(h, xs, st). length xs)") auto

definition decode :: "(addr \<rightharpoonup> block) \<Rightarrow> mword list \<Rightarrow> eterm option" where
  "decode h xs = (case driver_term h xs [] of Some [t] \<Rightarrow> Some t | _ \<Rightarrow> None)"

text \<open>
  \<open>driver_output_term(port, data, n)\<close>: the term built from the first \<open>n\<close> cells of
  \<open>data\<close> is sent to the port's owner and the result is 1; a buffer that is no term
  sends nothing and the result is \<open>-1\<close>.
\<close>

definition driver_output_term :: "nat \<Rightarrow> addr option \<Rightarrow> int \<Rightarrow> world \<Rightarrow> int \<times> world" where
  "driver_output_term prt data n w =
     (case data of
        None \<Rightarrow> (-1, w)
      | Some a \<Rightarrow>
          (case heap w a of
             Some (Array xs) \<Rightarrow>
               (if 0 \<le> n \<and> nat n \<le> length xs
                then (case decode (heap w) (take (nat n) xs) of
                        Some t \<Rightarrow> (1, w\<lparr>sent := sent w @ [(prt, t)]\<rparr>)
                      | None \<Rightarrow> (-1, w))
                else (-1, w\<lparr>crashed := True\<rparr>))
           | _ \<Rightarrow> (-1, w\<lparr>crashed := True\<rparr>)))"

subsection \<open>The driver\<close>

text \<open>
  The fields of \<open>async_sqlite3_command\<close> that \<open>sqlite3_drv.c\<close> uses (\<open>ac_dataset\<close>
  is \<open>async_command->dataset\<close>, and so on; \<open>driver_data\<close> is the one \<open>drv\<close> of the
  world), with the address of the record itself.
\<close>

record async_sqlite3_command =
  ac_self :: addr
  ac_statement :: "sqlite3_stmt option"
  ac_dataset :: "addr option"
  ac_term_count :: int
  ac_row_count :: int
  ac_floats :: "addr option"
  ac_binaries :: "addr option"
  ac_binaries_count :: int

text \<open>The local variables of \<open>sql_exec_async\<close> that change while it runs.\<close>

record locals =
  dataset :: "addr option"
  term_count :: int
  row_count :: int
  floats :: "addr option"
  float_count :: int
  binaries :: "addr option"
  binaries_count :: int

definition strlen :: "string \<Rightarrow> nat" where
  "strlen s = length (takeWhile (\<lambda>c. c \<noteq> CHR 0x00) s)"

text \<open>\<open>return_error\<close> (lines 79-90): a fresh buffer of 7 cells, \<open>{error, Msg}\<close>.\<close>

definition return_error :: "string \<Rightarrow> world \<Rightarrow> addr option \<times> int \<times> world" where
  "return_error error w =
     (let (spec, w) = calloc 7 w;
          w = poke spec 0 (Tag ERL_DRV_ATOM) w;
          w = poke spec 1 (Atom ''error'') w;
          w = poke spec 2 (Tag ERL_DRV_STRING) w;
          w = poke spec 3 (CharPtr error) w;
          w = poke spec 4 (Num (of_nat (strlen error))) w;
          w = poke spec 5 (Tag ERL_DRV_TUPLE) w;
          w = poke spec 6 (Num 2) w
      in (spec, 7, w))"

text \<open>Lines 169-172: the port that the reply names.\<close>

definition port_header :: "locals \<times> world \<Rightarrow> locals \<times> world" where
  "port_header s =
     (case s of (l, w) \<Rightarrow>
        (let (term_count', w) = checked (term_count l + 2) w;
             (dataset', w) = realloc (dataset l) (nat term_count') w;
             w = poke dataset' (term_count' - 2) (Tag ERL_DRV_PORT) w;
             w = poke dataset' (term_count' - 1) (Port (port (drv w))) w
         in (l\<lparr>dataset := dataset', term_count := term_count'\<rparr>, w)))"

text \<open>Lines 174-193: the column names, and the atom that opens the rows.\<close>

definition columns_header ::
  "sqlite3_stmt option \<Rightarrow> int \<Rightarrow> locals \<times> world \<Rightarrow> locals \<times> world" where
  "columns_header statement column_count s =
     (case s of (l, w) \<Rightarrow>
        (let base = term_count l;
             (n, w) = checked (2 + column_count * 2 + 1 + 2 + 2 + 2) w;
             (term_count', w) = checked (term_count l + n) w;
             (dataset', w) = realloc (dataset l) (nat term_count') w;
             w = poke dataset' base (Tag ERL_DRV_ATOM) w;
             w = poke dataset' (base + 1) (Atom ''columns'') w;
             w = fold (\<lambda>i w.
                    poke dataset' (base + 2 + (int i * 2) + 1)
                      (Atom (sqlite3_column_name statement i))
                      (poke dataset' (base + 2 + (int i * 2)) (Tag ERL_DRV_ATOM) w))
                  [0..<nat column_count] w;
             w = poke dataset' (base + 2 + column_count * 2 + 0) (Tag ERL_DRV_NIL) w;
             w = poke dataset' (base + 2 + column_count * 2 + 1) (Tag ERL_DRV_LIST) w;
             (n, w) = checked (column_count + 1) w;
             w = poke dataset' (base + 2 + column_count * 2 + 2) (Num (of_int n)) w;
             w = poke dataset' (base + 2 + column_count * 2 + 3) (Tag ERL_DRV_TUPLE) w;
             w = poke dataset' (base + 2 + column_count * 2 + 4) (Num 2) w;
             w = poke dataset' (base + 2 + column_count * 2 + 5) (Tag ERL_DRV_ATOM) w;
             w = poke dataset' (base + 2 + column_count * 2 + 6) (Atom ''rows'') w
         in (l\<lparr>dataset := dataset', term_count := term_count'\<rparr>, w)))"

text \<open>Lines 210-212: a float cell's value goes to the end of the float pool.\<close>

definition float_pool_step :: "64 word \<Rightarrow> locals \<times> world \<Rightarrow> locals \<times> world" where
  "float_pool_step d s =
     (case s of (l, w) \<Rightarrow>
        (let (float_count', w) = checked (float_count l + 1) w;
             (floats', w) = realloc (floats l) (nat float_count') w;
             w = poke floats' (float_count' - 1) (Double d) w
         in (l\<lparr>floats := floats', float_count := float_count'\<rparr>, w)))"

text \<open>
  Lines 222-227: a text or blob cell's bytes are copied to a new binary, whose address
  goes to the end of the blob pool.
\<close>

definition blob_pool_step :: "byte list \<Rightarrow> locals \<times> world \<Rightarrow> locals \<times> world" where
  "blob_pool_step src s =
     (case s of (l, w) \<Rightarrow>
        (let bytes = sqlite3_column_bytes src;
             (binaries_count', w) = checked (binaries_count l + 1) w;
             (binaries', w) = realloc (binaries l) (nat binaries_count') w;
             (b, w) = driver_alloc_binary (nat bytes) w;
             w = poke binaries' (binaries_count' - 1) b w;
             w = memcpy_orig_bytes (peek binaries' (binaries_count' - 1) w) src (nat bytes) w
         in (l\<lparr>binaries := binaries', binaries_count := binaries_count'\<rparr>, w)))"

text \<open>Lines 220-236: the case shared by \<open>SQLITE_BLOB\<close> and \<open>SQLITE_TEXT\<close>.\<close>

definition encode_blob :: "byte list \<Rightarrow> locals \<times> world \<Rightarrow> locals \<times> world" where
  "encode_blob src s =
     (case blob_pool_step src s of (l, w) \<Rightarrow>
        (let bytes = sqlite3_column_bytes src;
             (term_count', w) = checked (term_count l + 4) w;
             (dataset', w) = realloc (dataset l) (nat term_count') w;
             w = poke dataset' (term_count' - 4) (Tag ERL_DRV_BINARY) w;
             w = poke dataset' (term_count' - 3) (peek (binaries l) (binaries_count l - 1) w) w;
             w = poke dataset' (term_count' - 2) (Num (of_int bytes)) w;
             w = poke dataset' (term_count' - 1) (Num 0) w
         in (l\<lparr>dataset := dataset', term_count := term_count'\<rparr>, w)))"

text \<open>Lines 201-240: the \<open>switch\<close> on the type of one cell; a NULL cell writes nothing.\<close>

definition encode_column :: "cell \<Rightarrow> locals \<times> world \<Rightarrow> locals \<times> world" where
  "encode_column c s =
     (case c of
        SQLITE_INTEGER v \<Rightarrow>
          (case s of (l, w) \<Rightarrow>
             (let (term_count', w) = checked (term_count l + 2) w;
                  (dataset', w) = realloc (dataset l) (nat term_count') w;
                  w = poke dataset' (term_count' - 2) (Tag ERL_DRV_INT) w;
                  w = poke dataset' (term_count' - 1) (Num (of_int (sqlite3_column_int v))) w
              in (l\<lparr>dataset := dataset', term_count := term_count'\<rparr>, w)))
      | SQLITE_FLOAT d \<Rightarrow>
          (case float_pool_step d s of (l, w) \<Rightarrow>
             (let (term_count', w) = checked (term_count l + 2) w;
                  (dataset', w) = realloc (dataset l) (nat term_count') w;
                  w = poke dataset' (term_count' - 2) (Tag ERL_DRV_FLOAT) w;
                  w = poke dataset' (term_count' - 1) (elem_addr (floats l) (float_count l - 1)) w
              in (l\<lparr>dataset := dataset', term_count := term_count'\<rparr>, w)))
      | SQLITE_BLOB bs \<Rightarrow> encode_blob bs s
      | SQLITE_TEXT bs \<Rightarrow> encode_blob bs s
      | SQLITE_NULL \<Rightarrow> s)"

text \<open>Lines 199-247: the body of the \<open>while\<close> loop, for the row just stepped to.\<close>

definition encode_row :: "int \<Rightarrow> cell list \<Rightarrow> locals \<times> world \<Rightarrow> locals \<times> world" where
  "encode_row column_count row s =
     (case fold (\<lambda>i. encode_column (column row i)) [0..<nat column_count] s of
        (l, w) \<Rightarrow>
          (let (term_count', w) = checked (term_count l + 2) w;
               (dataset', w) = realloc (dataset l) (nat term_count') w;
               w = poke dataset' (term_count' - 2) (Tag ERL_DRV_TUPLE) w;
               w = poke dataset' (term_count' - 1) (Num (of_int column_count)) w;
               (row_count', w) = checked (row_count l + 1) w
           in (l\<lparr>dataset := dataset', term_count := term_count',
                 row_count := row_count'\<rparr>, w)))"

text \<open>Line 197: the loop runs once for each row that \<open>sqlite3_step\<close> returns.\<close>

fun stepping :: "int \<Rightarrow> cell list list \<Rightarrow> locals \<times> world \<Rightarrow> locals \<times> world" where
  "stepping column_count [] s = s"
| "stepping column_count (row # rest) s = stepping column_count rest (encode_row column_count row s)"

text \<open>Lines 266-270: the end of the list of rows.\<close>

definition rows_end :: "locals \<times> world \<Rightarrow> locals \<times> world" where
  "rows_end s =
     (case s of (l, w) \<Rightarrow>
        (let (term_count', w) = checked (term_count l + 3) w;
             (dataset', w) = realloc (dataset l) (nat term_count') w;
             w = poke dataset' (term_count' - 3) (Tag ERL_DRV_NIL) w;
             w = poke dataset' (term_count' - 2) (Tag ERL_DRV_LIST) w;
             (n, w) = checked (row_count l + 1) w;
             w = poke dataset' (term_count' - 1) (Num (of_int n)) w
         in (l\<lparr>dataset := dataset', term_count := term_count'\<rparr>, w)))"

text \<open>Lines 272-275: the pair of the atom \<open>rows\<close> and that list.\<close>

definition rows_pair :: "locals \<times> world \<Rightarrow> locals \<times> world" where
  "rows_pair s =
     (case s of (l, w) \<Rightarrow>
        (let (term_count', w) = checked (term_count l + 2) w;
             (dataset', w) = realloc (dataset l) (nat term_count') w;
             w = poke dataset' (term_count' - 2) (Tag ERL_DRV_TUPLE) w;
             w = poke dataset' (term_count' - 1) (Num 2) w
         in (l\<lparr>dataset := dataset', term_count := term_count'\<rparr>, w)))"

text \<open>Lines 278-282: a list of the two pairs, columns and rows.\<close>

definition body_list :: "locals \<times> world \<Rightarrow> locals \<times> world" where
  "body_list s =
     (case s of (l, w) \<Rightarrow>
        (let (term_count', w) = checked (term_count l + 3) w;
             (dataset', w) = realloc (dataset l) (nat term_count') w;
             w = poke dataset' (term_count' - 3) (Tag ERL_DRV_NIL) w;
             w = poke dataset' (term_count' - 2) (Tag ERL_DRV_LIST) w;
             w = poke dataset' (term_count' - 1) (Num 3) w
         in (l\<lparr>dataset := dataset', term_count := term_count'\<rparr>, w)))"

text \<open>Lines 286-294: the pair of the atom \<open>id\<close> and the last inserted rowid.\<close>

definition insert_id :: "sqlite3_stmt option \<Rightarrow> locals \<times> world \<Rightarrow> locals \<times> world" where
  "insert_id statement s =
     (case s of (l, w) \<Rightarrow>
        (let rowid = sqlite3_last_insert_rowid statement;
             (term_count', w) = checked (term_count l + 6) w;
             (dataset', w) = realloc (dataset l) (nat term_count') w;
             w = poke dataset' (term_count' - 6) (Tag ERL_DRV_ATOM) w;
             w = poke dataset' (term_count' - 5) (Atom ''id'') w;
             w = poke dataset' (term_count' - 4) (Tag ERL_DRV_INT) w;
             w = poke dataset' (term_count' - 3) (Num rowid) w;
             w = poke dataset' (term_count' - 2) (Tag ERL_DRV_TUPLE) w;
             w = poke dataset' (term_count' - 1) (Num 2) w
         in (l\<lparr>dataset := dataset', term_count := term_count'\<rparr>, w)))"

text \<open>Lines 296-303: the pair of the atom \<open>ok\<close> and the last result of \<open>sqlite3_step\<close>.\<close>

definition status_ok :: "int \<Rightarrow> locals \<times> world \<Rightarrow> locals \<times> world" where
  "status_ok next_row s =
     (case s of (l, w) \<Rightarrow>
        (let (term_count', w) = checked (term_count l + 6) w;
             (dataset', w) = realloc (dataset l) (nat term_count') w;
             w = poke dataset' (term_count' - 6) (Tag ERL_DRV_ATOM) w;
             w = poke dataset' (term_count' - 5) (Atom ''ok'') w;
             w = poke dataset' (term_count' - 4) (Tag ERL_DRV_INT) w;
             w = poke dataset' (term_count' - 3) (Num (of_int next_row)) w;
             w = poke dataset' (term_count' - 2) (Tag ERL_DRV_TUPLE) w;
             w = poke dataset' (term_count' - 1) (Num 2) w
         in (l\<lparr>dataset := dataset', term_count := term_count'\<rparr>, w)))"

text \<open>
  Lines 265-304: what closes the reply's body, after \<open>SQLITE_DONE\<close>. \<open>strcasestr\<close>
  on the NULL text of the NULL statement is undefined.
\<close>

definition envelope ::
  "sqlite3_stmt option \<Rightarrow> int \<Rightarrow> int \<Rightarrow> locals \<times> world \<Rightarrow> locals \<times> world" where
  "envelope statement column_count next_row s =
     (if column_count > 0 then body_list (rows_pair (rows_end s))
      else
        (case sqlite3_sql statement of
           None \<Rightarrow> (case s of (l, w) \<Rightarrow> (l, w\<lparr>crashed := True\<rparr>))
         | Some text \<Rightarrow>
             (if strcasestr text ''INSERT'' then insert_id statement s
              else status_ok next_row s)))"

text \<open>Lines 306-309: the outermost pair.\<close>

definition close_reply :: "locals \<times> world \<Rightarrow> locals \<times> world" where
  "close_reply s =
     (case s of (l, w) \<Rightarrow>
        (let (term_count', w) = checked (term_count l + 2) w;
             (dataset', w) = realloc (dataset l) (nat term_count') w;
             w = poke dataset' (term_count' - 2) (Tag ERL_DRV_TUPLE) w;
             w = poke dataset' (term_count' - 1) (Num 2) w
         in (l\<lparr>dataset := dataset', term_count := term_count'\<rparr>, w)))"

text \<open>
  Lines 147-195 of \<open>sql_exec_async\<close>, up to the loop: the locals are read from the
  record, the local \<open>dataset\<close> is set to NULL before its first \<open>realloc\<close>, and the
  two headers are written.
\<close>

definition encode_begin :: "async_sqlite3_command \<Rightarrow> world \<Rightarrow> locals \<times> world" where
  "encode_begin async_command w =
     (let l = \<lparr>dataset = ac_dataset async_command, term_count = ac_term_count async_command,
               row_count = ac_row_count async_command, floats = None, float_count = 0,
               binaries = None, binaries_count = 0\<rparr>;
          statement = ac_statement async_command;
          column_count = sqlite3_column_count statement;
          l = l\<lparr>dataset := None\<rparr>;
          (l, w) = port_header (l, w);
          (l, w) = (if column_count > 0 then columns_header statement column_count (l, w)
                    else (l, w));
          w = fprintf_stderr (Exec_line (sqlite3_sql statement)) w
      in (l, w))"

text \<open>
  \<open>sql_exec_async\<close> (lines 146-317). On the two error exits the record's \<open>dataset\<close>
  and \<open>term_count\<close> are those of \<open>return_error\<close>, and the local buffer is not stored
  anywhere.
\<close>

definition sql_exec_async ::
  "async_sqlite3_command \<Rightarrow> world \<Rightarrow> async_sqlite3_command \<times> world" where
  "sql_exec_async async_command w =
     (let statement = ac_statement async_command;
          column_count = sqlite3_column_count statement;
          (l, w) = encode_begin async_command w;
          (l, w) = stepping column_count (step_rows statement) (l, w);
          next_row = step_final statement;
          w = after_stepping statement w;
          async_command = async_command\<lparr>ac_row_count := row_count l, ac_floats := floats l,
             ac_binaries := binaries l, ac_binaries_count := binaries_count l\<rparr>
      in if next_row = SQLITE_BUSY then
           (let (spec, n, w) = return_error ''SQLite3 database is busy'' w
            in (async_command\<lparr>ac_dataset := spec, ac_term_count := n\<rparr>, w))
         else if next_row \<noteq> SQLITE_DONE then
           (let (spec, n, w) = return_error (sqlite3_errmsg w) w
            in (async_command\<lparr>ac_dataset := spec, ac_term_count := n\<rparr>, w))
         else
           (let (l, w) = envelope statement column_count next_row (l, w);
                (l, w) = close_reply (l, w);
                async_command = async_command\<lparr>ac_dataset := dataset l,
                   ac_term_count := term_count l\<rparr>;
                w = fprintf_stderr
                      (Exec_total (map_option handle statement) (term_count l) column_count
                         (row_count l)) w
            in (async_command, w)))"

text \<open>\<open>sql_free_async\<close> (lines 122-143).\<close>

definition sql_free_async :: "async_sqlite3_command \<Rightarrow> world \<Rightarrow> world" where
  "sql_free_async async_command w =
     (let w = free (ac_dataset async_command) w;
          w = w\<lparr>drv := (drv w)\<lparr>async_handle := 0\<rparr>\<rparr>;
          w = (if ac_floats async_command \<noteq> None then free (ac_floats async_command) w else w);
          w = fold (\<lambda>i w. driver_free_binary (peek (ac_binaries async_command) (int i) w) w)
                [0..<nat (ac_binaries_count async_command)] w;
          w = (if ac_binaries async_command \<noteq> None then free (ac_binaries async_command) w
               else w);
          w = (if ac_statement async_command \<noteq> None
               then sqlite3_finalize (ac_statement async_command) w else w)
      in free (Some (ac_self async_command)) w)"

text \<open>\<open>ready_async\<close> (lines 319-327): deliver, then release.\<close>

definition ready_async :: "async_sqlite3_command \<Rightarrow> world \<Rightarrow> world" where
  "ready_async async_command w =
     (let (res, w) = driver_output_term (port (drv w)) (ac_dataset async_command)
                       (ac_term_count async_command) w;
          w = fprintf_stderr
                (Ready_total (map_option handle (ac_statement async_command))
                   (ac_term_count async_command) (ac_row_count async_command) res) w
      in sql_free_async async_command w)"

text \<open>
  \<open>sql_exec\<close> (lines 92-120). The record is obtained with \<open>calloc\<close>, so all its fields
  start as zero; the branch taken is the synchronous one (\<open>if (1)\<close>).
\<close>

definition sql_exec :: "string \<Rightarrow> world \<Rightarrow> int \<times> world" where
  "sql_exec command w =
     (let (result, statement, w) = sqlite3_prepare_v2 command w
      in if result \<noteq> SQLITE_OK then
           (let (dataset', term_count', w) = return_error (sqlite3_errmsg w) w;
                (res, w) = driver_output_term (port (drv w)) dataset' term_count' w
            in (0, w))
         else
           (let (a, w) = alloc Command w;
                async_command = \<lparr>ac_self = a, ac_statement = statement, ac_dataset = None,
                   ac_term_count = 0, ac_row_count = 0, ac_floats = None, ac_binaries = None,
                   ac_binaries_count = 0\<rparr>;
                (async_command, w) = sql_exec_async async_command w;
                w = ready_async async_command w
            in (0, w)))"

section \<open>Notions used to state and prove the properties\<close>

text \<open>
  Nothing from here on is part of the driver.

  The encoder once more, with counters that are unbounded integers: the definitions
  above without \<open>checked\<close>. They are what the proofs below work on; the driver's own
  functions agree with them as long as \<open>term_count\<close> stays within \<open>INT_MAX\<close>
  (section ``Bounded counters'').
\<close>

definition port_header_u :: "locals \<times> world \<Rightarrow> locals \<times> world" where
  "port_header_u s =
     (case s of (l, w) \<Rightarrow>
        (let term_count' = term_count l + 2;
             (dataset', w) = realloc (dataset l) (nat term_count') w;
             w = poke dataset' (term_count' - 2) (Tag ERL_DRV_PORT) w;
             w = poke dataset' (term_count' - 1) (Port (port (drv w))) w
         in (l\<lparr>dataset := dataset', term_count := term_count'\<rparr>, w)))"

definition columns_header_u ::
  "sqlite3_stmt option \<Rightarrow> int \<Rightarrow> locals \<times> world \<Rightarrow> locals \<times> world" where
  "columns_header_u statement column_count s =
     (case s of (l, w) \<Rightarrow>
        (let base = term_count l;
             term_count' = term_count l + (2 + column_count * 2 + 1 + 2 + 2 + 2);
             (dataset', w) = realloc (dataset l) (nat term_count') w;
             w = poke dataset' base (Tag ERL_DRV_ATOM) w;
             w = poke dataset' (base + 1) (Atom ''columns'') w;
             w = fold (\<lambda>i w.
                    poke dataset' (base + 2 + (int i * 2) + 1)
                      (Atom (sqlite3_column_name statement i))
                      (poke dataset' (base + 2 + (int i * 2)) (Tag ERL_DRV_ATOM) w))
                  [0..<nat column_count] w;
             w = poke dataset' (base + 2 + column_count * 2 + 0) (Tag ERL_DRV_NIL) w;
             w = poke dataset' (base + 2 + column_count * 2 + 1) (Tag ERL_DRV_LIST) w;
             w = poke dataset' (base + 2 + column_count * 2 + 2) (Num (of_int (column_count + 1))) w;
             w = poke dataset' (base + 2 + column_count * 2 + 3) (Tag ERL_DRV_TUPLE) w;
             w = poke dataset' (base + 2 + column_count * 2 + 4) (Num 2) w;
             w = poke dataset' (base + 2 + column_count * 2 + 5) (Tag ERL_DRV_ATOM) w;
             w = poke dataset' (base + 2 + column_count * 2 + 6) (Atom ''rows'') w
         in (l\<lparr>dataset := dataset', term_count := term_count'\<rparr>, w)))"

definition float_pool_step_u :: "64 word \<Rightarrow> locals \<times> world \<Rightarrow> locals \<times> world" where
  "float_pool_step_u d s =
     (case s of (l, w) \<Rightarrow>
        (let float_count' = float_count l + 1;
             (floats', w) = realloc (floats l) (nat float_count') w;
             w = poke floats' (float_count' - 1) (Double d) w
         in (l\<lparr>floats := floats', float_count := float_count'\<rparr>, w)))"

definition blob_pool_step_u :: "byte list \<Rightarrow> locals \<times> world \<Rightarrow> locals \<times> world" where
  "blob_pool_step_u src s =
     (case s of (l, w) \<Rightarrow>
        (let bytes = sqlite3_column_bytes src;
             binaries_count' = binaries_count l + 1;
             (binaries', w) = realloc (binaries l) (nat binaries_count') w;
             (b, w) = driver_alloc_binary (nat bytes) w;
             w = poke binaries' (binaries_count' - 1) b w;
             w = memcpy_orig_bytes (peek binaries' (binaries_count' - 1) w) src (nat bytes) w
         in (l\<lparr>binaries := binaries', binaries_count := binaries_count'\<rparr>, w)))"

definition encode_blob_u :: "byte list \<Rightarrow> locals \<times> world \<Rightarrow> locals \<times> world" where
  "encode_blob_u src s =
     (case blob_pool_step_u src s of (l, w) \<Rightarrow>
        (let bytes = sqlite3_column_bytes src;
             term_count' = term_count l + 4;
             (dataset', w) = realloc (dataset l) (nat term_count') w;
             w = poke dataset' (term_count' - 4) (Tag ERL_DRV_BINARY) w;
             w = poke dataset' (term_count' - 3) (peek (binaries l) (binaries_count l - 1) w) w;
             w = poke dataset' (term_count' - 2) (Num (of_int bytes)) w;
             w = poke dataset' (term_count' - 1) (Num 0) w
         in (l\<lparr>dataset := dataset', term_count := term_count'\<rparr>, w)))"

definition encode_column_u :: "cell \<Rightarrow> locals \<times> world \<Rightarrow> locals \<times> world" where
  "encode_column_u c s =
     (case c of
        SQLITE_INTEGER v \<Rightarrow>
          (case s of (l, w) \<Rightarrow>
             (let term_count' = term_count l + 2;
                  (dataset', w) = realloc (dataset l) (nat term_count') w;
                  w = poke dataset' (term_count' - 2) (Tag ERL_DRV_INT) w;
                  w = poke dataset' (term_count' - 1) (Num (of_int (sqlite3_column_int v))) w
              in (l\<lparr>dataset := dataset', term_count := term_count'\<rparr>, w)))
      | SQLITE_FLOAT d \<Rightarrow>
          (case float_pool_step_u d s of (l, w) \<Rightarrow>
             (let term_count' = term_count l + 2;
                  (dataset', w) = realloc (dataset l) (nat term_count') w;
                  w = poke dataset' (term_count' - 2) (Tag ERL_DRV_FLOAT) w;
                  w = poke dataset' (term_count' - 1) (elem_addr (floats l) (float_count l - 1)) w
              in (l\<lparr>dataset := dataset', term_count := term_count'\<rparr>, w)))
      | SQLITE_BLOB bs \<Rightarrow> encode_blob_u bs s
      | SQLITE_TEXT bs \<Rightarrow> encode_blob_u bs s
      | SQLITE_NULL \<Rightarrow> s)"

definition encode_row_u :: "int \<Rightarrow> cell list \<Rightarrow> locals \<times> world \<Rightarrow> locals \<times> world" where
  "encode_row_u column_count row s =
     (case fold (\<lambda>i. encode_column_u (column row i)) [0..<nat column_count] s of
        (l, w) \<Rightarrow>
          (let term_count' = term_count l + 2;
               (dataset', w) = realloc (dataset l) (nat term_count') w;
               w = poke dataset' (term_count' - 2) (Tag ERL_DRV_TUPLE) w;
               w = poke dataset' (term_count' - 1) (Num (of_int column_count)) w
           in (l\<lparr>dataset := dataset', term_count := term_count',
                 row_count := row_count l + 1\<rparr>, w)))"

fun stepping_u :: "int \<Rightarrow> cell list list \<Rightarrow> locals \<times> world \<Rightarrow> locals \<times> world" where
  "stepping_u column_count [] s = s"
| "stepping_u column_count (row # rest) s = stepping_u column_count rest (encode_row_u column_count row s)"

definition rows_end_u :: "locals \<times> world \<Rightarrow> locals \<times> world" where
  "rows_end_u s =
     (case s of (l, w) \<Rightarrow>
        (let term_count' = term_count l + 3;
             (dataset', w) = realloc (dataset l) (nat term_count') w;
             w = poke dataset' (term_count' - 3) (Tag ERL_DRV_NIL) w;
             w = poke dataset' (term_count' - 2) (Tag ERL_DRV_LIST) w;
             w = poke dataset' (term_count' - 1) (Num (of_int (row_count l + 1))) w
         in (l\<lparr>dataset := dataset', term_count := term_count'\<rparr>, w)))"

definition rows_pair_u :: "locals \<times> world \<Rightarrow> locals \<times> world" where
  "rows_pair_u s =
     (case s of (l, w) \<Rightarrow>
        (let term_count' = term_count l + 2;
             (dataset', w) = realloc (dataset l) (nat term_count') w;
             w = poke dataset' (term_count' - 2) (Tag ERL_DRV_TUPLE) w;
             w = poke dataset' (term_count' - 1) (Num 2) w
         in (l\<lparr>dataset := dataset', term_count := term_count'\<rparr>, w)))"

definition body_list_u :: "locals \<times> world \<Rightarrow> locals \<times> world" where
  "body_list_u s =
     (case s of (l, w) \<Rightarrow>
        (let term_count' = term_count l + 3;
             (dataset', w) = realloc (dataset l) (nat term_count') w;
             w = poke dataset' (term_count' - 3) (Tag ERL_DRV_NIL) w;
             w = poke dataset' (term_count' - 2) (Tag ERL_DRV_LIST) w;
             w = poke dataset' (term_count' - 1) (Num 3) w
         in (l\<lparr>dataset := dataset', term_count := term_count'\<rparr>, w)))"

definition insert_id_u :: "sqlite3_stmt option \<Rightarrow> locals \<times> world \<Rightarrow> locals \<times> world" where
  "insert_id_u statement s =
     (case s of (l, w) \<Rightarrow>
        (let rowid = sqlite3_last_insert_rowid statement;
             term_count' = term_count l + 6;
             (dataset', w) = realloc (dataset l) (nat term_count') w;
             w = poke dataset' (term_count' - 6) (Tag ERL_DRV_ATOM) w;
             w = poke dataset' (term_count' - 5) (Atom ''id'') w;
             w = poke dataset' (term_count' - 4) (Tag ERL_DRV_INT) w;
             w = poke dataset' (term_count' - 3) (Num rowid) w;
             w = poke dataset' (term_count' - 2) (Tag ERL_DRV_TUPLE) w;
             w = poke dataset' (term_count' - 1) (Num 2) w
         in (l\<lparr>dataset := dataset', term_count := term_count'\<rparr>, w)))"

definition status_ok_u :: "int \<Rightarrow> locals \<times> world \<Rightarrow> locals \<times> world" where
  "status_ok_u next_row s =
     (case s of (l, w) \<Rightarrow>
        (let term_count' = term_count l + 6;
             (dataset', w) = realloc (dataset l) (nat term_count') w;
             w = poke dataset' (term_count' - 6) (Tag ERL_DRV_ATOM) w;
             w = poke dataset' (term_count' - 5) (Atom ''ok'') w;
             w = poke dataset' (term_count' - 4) (Tag ERL_DRV_INT) w;
             w = poke dataset' (term_count' - 3) (Num (of_int next_row)) w;
             w = poke dataset' (term_count' - 2) (Tag ERL_DRV_TUPLE) w;
             w = poke dataset' (term_count' - 1) (Num 2) w
         in (l\<lparr>dataset := dataset', term_count := term_count'\<rparr>, w)))"

definition envelope_u ::
  "sqlite3_stmt option \<Rightarrow> int \<Rightarrow> int \<Rightarrow> locals \<times> world \<Rightarrow> locals \<times> world" where
  "envelope_u statement column_count next_row s =
     (if column_count > 0 then body_list_u (rows_pair_u (rows_end_u s))
      else
        (case sqlite3_sql statement of
           None \<Rightarrow> (case s of (l, w) \<Rightarrow> (l, w\<lparr>crashed := True\<rparr>))
         | Some text \<Rightarrow>
             (if strcasestr text ''INSERT'' then insert_id_u statement s
              else status_ok_u next_row s)))"

definition close_reply_u :: "locals \<times> world \<Rightarrow> locals \<times> world" where
  "close_reply_u s =
     (case s of (l, w) \<Rightarrow>
        (let term_count' = term_count l + 2;
             (dataset', w) = realloc (dataset l) (nat term_count') w;
             w = poke dataset' (term_count' - 2) (Tag ERL_DRV_TUPLE) w;
             w = poke dataset' (term_count' - 1) (Num 2) w
         in (l\<lparr>dataset := dataset', term_count := term_count'\<rparr>, w)))"

definition encode_begin_u :: "async_sqlite3_command \<Rightarrow> world \<Rightarrow> locals \<times> world" where
  "encode_begin_u async_command w =
     (let l = \<lparr>dataset = ac_dataset async_command, term_count = ac_term_count async_command,
               row_count = ac_row_count async_command, floats = None, float_count = 0,
               binaries = None, binaries_count = 0\<rparr>;
          statement = ac_statement async_command;
          column_count = sqlite3_column_count statement;
          l = l\<lparr>dataset := None\<rparr>;
          (l, w) = port_header_u (l, w);
          (l, w) = (if column_count > 0 then columns_header_u statement column_count (l, w)
                    else (l, w));
          w = fprintf_stderr (Exec_line (sqlite3_sql statement)) w
      in (l, w))"

definition sql_exec_async_u ::
  "async_sqlite3_command \<Rightarrow> world \<Rightarrow> async_sqlite3_command \<times> world" where
  "sql_exec_async_u async_command w =
     (let statement = ac_statement async_command;
          column_count = sqlite3_column_count statement;
          (l, w) = encode_begin_u async_command w;
          (l, w) = stepping_u column_count (step_rows statement) (l, w);
          next_row = step_final statement;
          w = after_stepping statement w;
          async_command = async_command\<lparr>ac_row_count := row_count l, ac_floats := floats l,
             ac_binaries := binaries l, ac_binaries_count := binaries_count l\<rparr>
      in if next_row = SQLITE_BUSY then
           (let (spec, n, w) = return_error ''SQLite3 database is busy'' w
            in (async_command\<lparr>ac_dataset := spec, ac_term_count := n\<rparr>, w))
         else if next_row \<noteq> SQLITE_DONE then
           (let (spec, n, w) = return_error (sqlite3_errmsg w) w
            in (async_command\<lparr>ac_dataset := spec, ac_term_count := n\<rparr>, w))
         else
           (let (l, w) = envelope_u statement column_count next_row (l, w);
                (l, w) = close_reply_u (l, w);
                async_command = async_command\<lparr>ac_dataset := dataset l,
                   ac_term_count := term_count l\<rparr>;
                w = fprintf_stderr
                      (Exec_total (map_option handle statement) (term_count l) column_count
                         (row_count l)) w
            in (async_command, w)))"

text \<open>
  The source grows its term buffer in one
  idiom, repeated at every place that writes terms: add \<open>k\<close> to \<open>term_count\<close>,
  \<open>realloc\<close> the buffer to that many cells, write the \<open>k\<close> new cells. \<open>pokes\<close> is a
  run of consecutive writes, \<open>grow\<close> is what \<open>realloc\<close> followed by those writes
  amounts to, and \<open>push\<close> is the idiom on the locals; each fragment of the source is
  proved equal to a \<open>push\<close> below.
\<close>

fun pokes :: "addr option \<Rightarrow> int \<Rightarrow> mword list \<Rightarrow> world \<Rightarrow> world" where
  "pokes p i [] w = w"
| "pokes p i (v # vs) w = pokes p (i + 1) vs (poke p i v w)"

definition holds :: "addr option \<Rightarrow> world \<Rightarrow> mword list \<Rightarrow> bool" where
  "holds p w xs = (case p of None \<Rightarrow> xs = [] | Some a \<Rightarrow> heap w a = Some (Array xs))"

definition grow :: "addr option \<Rightarrow> mword list \<Rightarrow> mword list \<Rightarrow> world \<Rightarrow> addr option \<times> world" where
  "grow p xs vs w =
     (case p of
        None \<Rightarrow> (Some (brk w), w\<lparr>heap := (heap w)(brk w \<mapsto> Array (xs @ vs)), brk := Suc (brk w)\<rparr>)
      | Some a \<Rightarrow>
          (if relocates w (reallocs w)
           then (Some (brk w),
                 w\<lparr>heap := (heap w)(a := None, brk w \<mapsto> Array (xs @ vs)),
                   brk := Suc (brk w), reallocs := Suc (reallocs w),
                   released := released w @ [a]\<rparr>)
           else (Some a,
                 w\<lparr>heap := (heap w)(a \<mapsto> Array (xs @ vs)), reallocs := Suc (reallocs w)\<rparr>)))"

text \<open>
  \<open>fresh\<close>: no block lives at or above the next address the allocator hands out.
  \<open>inv l w xs fs bs\<close> is the invariant of the encoder: the local \<open>dataset\<close> holds the
  cells \<open>xs\<close>, the float pool the doubles \<open>fs\<close>, the blob pool the addresses \<open>bs\<close> of
  live binaries, the counters are the lengths, and the three arrays are different
  blocks, the term buffer holding no \<open>double\<close>. \<open>frame\<close> is what every fragment
  leaves alone; \<open>extends\<close> says that the binaries and the doubles of the pools are still
  where they were, which is what keeps a decoded prefix of the buffer decoded: the term
  buffer itself may move.
\<close>

definition fresh :: "world \<Rightarrow> bool" where
  "fresh w \<longleftrightarrow> (\<forall>a. brk w \<le> a \<longrightarrow> heap w a = None)"

definition grown ::
  "addr option \<Rightarrow> mword list \<Rightarrow> world \<Rightarrow> addr \<Rightarrow> world \<Rightarrow> bool" where
  "grown p ys w da w' \<longleftrightarrow>
     heap w' = (\<lambda>a. if a = da then Some (Array ys) else if Some a = p then None else heap w a) \<and>
     (Some da = p \<or> da = brk w) \<and>
     (p \<noteq> None \<and> \<not> relocates w (reallocs w) \<longrightarrow> Some da = p) \<and>
     brk w \<le> brk w' \<and> da < brk w' \<and> fresh w' \<and>
     crashed w' = crashed w \<and> sent w' = sent w \<and> stderr w' = stderr w \<and> drv w' = drv w \<and>
     db_errmsg w' = db_errmsg w \<and> relocates w' = relocates w"

definition push :: "mword list \<Rightarrow> mword list \<Rightarrow> locals \<times> world \<Rightarrow> locals \<times> world" where
  "push xs vs s =
     (case s of (l, w) \<Rightarrow>
        (case grow (dataset l) xs vs w of
           (d, w') \<Rightarrow> (l\<lparr>dataset := d, term_count := term_count l + int (length vs)\<rparr>, w')))"

fun plain :: "mword \<Rightarrow> bool" where
  "plain (Double d) = False"
| "plain _ = True"

definition inv :: "locals \<Rightarrow> world \<Rightarrow> mword list \<Rightarrow> 64 word list \<Rightarrow> addr list \<Rightarrow> bool" where
  "inv l w xs fs bs \<longleftrightarrow>
     fresh w \<and> \<not> crashed w \<and>
     holds (dataset l) w xs \<and> term_count l = int (length xs) \<and> list_all plain xs \<and>
     holds (floats l) w (map Double fs) \<and> float_count l = int (length fs) \<and>
     holds (binaries l) w (map BinaryPtr bs) \<and> binaries_count l = int (length bs) \<and>
     distinct bs \<and> (\<forall>b\<in>set bs. \<exists>bytes. heap w b = Some (Binary bytes)) \<and>
     (dataset l \<noteq> None \<longrightarrow> dataset l \<noteq> floats l \<and> dataset l \<noteq> binaries l) \<and>
     (floats l \<noteq> None \<longrightarrow> floats l \<noteq> binaries l)"

definition frame :: "world \<Rightarrow> world \<Rightarrow> bool" where
  "frame w w' \<longleftrightarrow>
     brk w \<le> brk w' \<and> sent w' = sent w \<and> drv w' = drv w \<and>
     db_errmsg w' = db_errmsg w \<and> relocates w' = relocates w \<and>
     (\<forall>a blk. heap w a = Some blk \<longrightarrow> (\<forall>ys. blk \<noteq> Array ys) \<longrightarrow> heap w' a = Some blk) \<and>
     (\<forall>a. a < brk w \<longrightarrow> heap w a = None \<longrightarrow> heap w' a = None)"

definition extends :: "(addr \<rightharpoonup> block) \<Rightarrow> (addr \<rightharpoonup> block) \<Rightarrow> bool" where
  "extends h h' \<longleftrightarrow>
     (\<forall>a bytes. h a = Some (Binary bytes) \<longrightarrow> h' a = Some (Binary bytes)) \<and>
     (\<forall>a ys i d. h a = Some (Array ys) \<longrightarrow> i < length ys \<longrightarrow> ys ! i = Double d \<longrightarrow>
        (\<exists>zs. h' a = Some (Array zs) \<and> i < length zs \<and> zs ! i = Double d))"

text \<open>
  The cells that the source writes for the column header, and for one row: \<open>slot_width\<close>
  is the number of cells of a result cell, \<open>cell_terms\<close> the term it stands for.
\<close>

definition column_slots :: "sqlite3_stmt option \<Rightarrow> nat \<Rightarrow> mword list" where
  "column_slots statement n =
     concat (map (\<lambda>i. [Tag ERL_DRV_ATOM, Atom (sqlite3_column_name statement i)]) [0..<n])"

definition header_slots :: "sqlite3_stmt option \<Rightarrow> nat \<Rightarrow> mword list" where
  "header_slots statement n =
     [Tag ERL_DRV_ATOM, Atom ''columns''] @ column_slots statement n @
     [Tag ERL_DRV_NIL, Tag ERL_DRV_LIST, Num (of_int (int n + 1)), Tag ERL_DRV_TUPLE, Num 2,
      Tag ERL_DRV_ATOM, Atom ''rows'']"

fun slot_width :: "cell \<Rightarrow> nat" where
  "slot_width (SQLITE_INTEGER v) = 2"
| "slot_width (SQLITE_FLOAT d) = 2"
| "slot_width (SQLITE_TEXT bs) = 4"
| "slot_width (SQLITE_BLOB bs) = 4"
| "slot_width SQLITE_NULL = 0"

fun cell_terms :: "cell \<Rightarrow> eterm list" where
  "cell_terms (SQLITE_INTEGER v) = [EInt (sqlite3_column_int v)]"
| "cell_terms (SQLITE_FLOAT d) = [EFloat d]"
| "cell_terms (SQLITE_TEXT bs) = [EBinary bs]"
| "cell_terms (SQLITE_BLOB bs) = [EBinary bs]"
| "cell_terms SQLITE_NULL = []"

fun fits_int :: "cell \<Rightarrow> bool" where
  "fits_int (SQLITE_TEXT bs) = (length bs < 2 ^ 31)"
| "fits_int (SQLITE_BLOB bs) = (length bs < 2 ^ 31)"
| "fits_int _ = True"

definition stepped ::
  "bool \<Rightarrow> locals \<Rightarrow> world \<Rightarrow> mword list \<Rightarrow> locals \<Rightarrow> world \<Rightarrow> mword list \<Rightarrow> bool" where
  "stepped q l w xs l' w' vals \<longleftrightarrow>
     (\<exists>fs' bs'. inv l' w' (xs @ vals) fs' bs') \<and> frame w w' \<and>
     (q \<longrightarrow> extends (heap w) (heap w'))"

definition cells :: "int \<Rightarrow> cell list \<Rightarrow> cell list" where
  "cells column_count row = map (column row) [0..<nat column_count]"

text \<open>
  The float pool stays in place when every float cell either finds no pool yet (the
  first one: \<open>realloc(NULL, n)\<close> allocates) or meets a \<open>realloc\<close> that returns the
  address it was given. \<open>cells_in_place\<close> and \<open>rows_in_place\<close> ask this of each cell
  along the run of the encoder.
\<close>

definition cell_in_place :: "cell \<Rightarrow> locals \<times> world \<Rightarrow> bool" where
  "cell_in_place c s \<longleftrightarrow>
     (case c of
        SQLITE_FLOAT d \<Rightarrow> floats (fst s) = None \<or> \<not> relocates (snd s) (reallocs (snd s))
      | _ \<Rightarrow> True)"

fun cells_in_place_u :: "cell list \<Rightarrow> locals \<times> world \<Rightarrow> bool" where
  "cells_in_place_u [] s = True"
| "cells_in_place_u (c # cs) s = (cell_in_place c s \<and> cells_in_place_u cs (encode_column_u c s))"

fun rows_in_place_u :: "int \<Rightarrow> cell list list \<Rightarrow> locals \<times> world \<Rightarrow> bool" where
  "rows_in_place_u column_count [] s = True"
| "rows_in_place_u column_count (row # rest) s =
     (cells_in_place_u (cells column_count row) s \<and>
      rows_in_place_u column_count rest (encode_row_u column_count row s))"

definition row_slots :: "int \<Rightarrow> cell list \<Rightarrow> mword list \<Rightarrow> bool" where
  "row_slots column_count row r \<longleftrightarrow>
     (\<exists>vals. r = vals @ [Tag ERL_DRV_TUPLE, Num (of_int column_count)] \<and>
             length vals = sum_list (map slot_width (cells column_count row)))"

definition row_term :: "int \<Rightarrow> cell list \<Rightarrow> eterm" where
  "row_term column_count row = ETuple (concat (map cell_terms (cells column_count row)))"

definition whole :: "int \<Rightarrow> cell list \<Rightarrow> bool" where
  "whole column_count row \<longleftrightarrow>
     0 \<le> column_count \<and> column_count < 2 ^ 31 \<and>
     list_all (\<lambda>c. c \<noteq> SQLITE_NULL \<and> fits_int c) (cells column_count row)"

definition buffer :: "locals \<times> world \<Rightarrow> mword list" where
  "buffer s =
     (case s of (l, w) \<Rightarrow>
        (case dataset l of
           None \<Rightarrow> []
         | Some d \<Rightarrow> (case heap w d of Some (Array xs) \<Rightarrow> xs | _ \<Rightarrow> [])))"

definition begin_slots :: "sqlite3_stmt option \<Rightarrow> world \<Rightarrow> mword list" where
  "begin_slots statement w =
     [Tag ERL_DRV_PORT, Port (port (drv w))] @
     (if sqlite3_column_count statement > 0
      then header_slots statement (nat (sqlite3_column_count statement)) else [])"

definition handed :: "async_sqlite3_command \<times> world \<Rightarrow> mword list" where
  "handed r =
     (case r of (async_command, w) \<Rightarrow>
        (case ac_dataset async_command of
           None \<Rightarrow> []
         | Some d \<Rightarrow>
             (case heap w d of
                Some (Array xs) \<Rightarrow> take (nat (ac_term_count async_command)) xs
              | _ \<Rightarrow> [])))"

text \<open>
  A world with an empty heap, a driver record and an allocator; \<open>new_command\<close> is the
  record as \<open>sql_exec\<close> passes it to \<open>sql_exec_async\<close>, and \<open>dispatched\<close> the world at
  that call (the statement handle and the record allocated).
\<close>

definition start_world :: "sqlite3_drv_t \<Rightarrow> (nat \<Rightarrow> bool) \<Rightarrow> world" where
  "start_world d r =
     \<lparr>heap = Map.empty, brk = 0, relocates = r, reallocs = 0, released = [], crashed = False,
      sent = [], stderr = [], db_errmsg = [], drv = d\<rparr>"

definition demo_drv :: "(string \<Rightarrow> compiled) \<Rightarrow> sqlite3_drv_t" where
  "demo_drv d = \<lparr>port = 7, db = d, key = 42, async_handle = 0\<rparr>"

definition new_command :: "addr \<Rightarrow> sqlite3_stmt option \<Rightarrow> async_sqlite3_command" where
  "new_command a statement =
     \<lparr>ac_self = a, ac_statement = statement, ac_dataset = None, ac_term_count = 0,
      ac_row_count = 0, ac_floats = None, ac_binaries = None, ac_binaries_count = 0\<rparr>"

definition kept :: "world \<Rightarrow> world \<Rightarrow> bool" where
  "kept w w' \<longleftrightarrow>
     brk w \<le> brk w' \<and> sent w' = sent w \<and> drv w' = drv w \<and> relocates w' = relocates w \<and>
     (\<forall>a blk. heap w a = Some blk \<longrightarrow> (\<forall>ys. blk \<noteq> Array ys) \<longrightarrow> heap w' a = Some blk)"

definition reply_tail :: "sqlite3_stmt option \<Rightarrow> int \<Rightarrow> mword list" where
  "reply_tail statement n =
     (if sqlite3_column_count statement > 0
      then [Tag ERL_DRV_NIL, Tag ERL_DRV_LIST, Num (of_int (n + 1)), Tag ERL_DRV_TUPLE, Num 2,
            Tag ERL_DRV_NIL, Tag ERL_DRV_LIST, Num 3]
      else (case sqlite3_sql statement of
              None \<Rightarrow> []
            | Some text \<Rightarrow>
                (if strcasestr text ''INSERT''
                 then [Tag ERL_DRV_ATOM, Atom ''id'', Tag ERL_DRV_INT,
                       Num (sqlite3_last_insert_rowid statement), Tag ERL_DRV_TUPLE, Num 2]
                 else [Tag ERL_DRV_ATOM, Atom ''ok'', Tag ERL_DRV_INT,
                       Num (of_int SQLITE_DONE), Tag ERL_DRV_TUPLE, Num 2]))) @
     [Tag ERL_DRV_TUPLE, Num 2]"

definition owns :: "async_sqlite3_command \<Rightarrow> locals \<Rightarrow> bool" where
  "owns async_command l \<longleftrightarrow>
     ac_row_count async_command = row_count l \<and> ac_floats async_command = floats l \<and>
     ac_binaries async_command = binaries l \<and>
     ac_binaries_count async_command = binaries_count l"

text \<open>Example statements.\<close>

definition demo_select :: program where
  "demo_select =
     \<lparr>sql = ''SELECT 42'', column_names = [''42''], rows = [[SQLITE_INTEGER 42]],
      final = SQLITE_DONE, step_errmsg = ''not an error'', last_insert_rowid = 0\<rparr>"

definition dispatched :: "world \<Rightarrow> world" where
  "dispatched w = snd (alloc Command (snd (alloc Statement w)))"

definition column_atoms :: "sqlite3_stmt option \<Rightarrow> eterm list" where
  "column_atoms statement =
     map (\<lambda>i. EAtom (sqlite3_column_name statement i)) [0..<nat (sqlite3_column_count statement)]"

definition demo_insert :: program where
  "demo_insert =
     \<lparr>sql = ''insert into t values (1)'', column_names = [], rows = [],
      final = SQLITE_DONE, step_errmsg = ''not an error'', last_insert_rowid = 5\<rparr>"

definition demo_create :: program where
  "demo_create =
     \<lparr>sql = ''CREATE TABLE t (a)'', column_names = [], rows = [],
      final = SQLITE_DONE, step_errmsg = ''not an error'', last_insert_rowid = 0\<rparr>"

text \<open>
  The cells of \<open>return_error\<close>; a C string has no NUL in it and a length that fits an
  \<open>int\<close>. \<open>without F w\<close> is the world \<open>w\<close> after the blocks at \<open>F\<close> have been
  released in that order, and \<open>freed\<close> lists what \<open>sql_free_async\<close> releases.
\<close>

definition error_slots :: "string \<Rightarrow> mword list" where
  "error_slots error =
     [Tag ERL_DRV_ATOM, Atom ''error'', Tag ERL_DRV_STRING, CharPtr error,
      Num (of_nat (strlen error)), Tag ERL_DRV_TUPLE, Num 2]"

definition c_string :: "string \<Rightarrow> bool" where
  "c_string s \<longleftrightarrow> list_all (\<lambda>c. c \<noteq> CHR 0x00) s \<and> length s < 2 ^ 31"


definition demo_big :: program where
  "demo_big =
     \<lparr>sql = ''SELECT 4294967297'', column_names = [''4294967297''],
      rows = [[SQLITE_INTEGER 4294967297]],
      final = SQLITE_DONE, step_errmsg = ''not an error'', last_insert_rowid = 0\<rparr>"

definition failure_message :: "sqlite3_stmt option \<Rightarrow> world \<Rightarrow> string" where
  "failure_message statement w =
     (if step_final statement = SQLITE_BUSY then ''SQLite3 database is busy''
      else sqlite3_errmsg (after_stepping statement w))"

definition option_list :: "'a option \<Rightarrow> 'a list" where
  "option_list p = (case p of None \<Rightarrow> [] | Some a \<Rightarrow> [a])"

definition without :: "addr list \<Rightarrow> world \<Rightarrow> world" where
  "without F w = w\<lparr>heap := heap w |` (- set F), released := released w @ F\<rparr>"

definition freed :: "async_sqlite3_command \<Rightarrow> addr list \<Rightarrow> addr list" where
  "freed async_command bs =
     option_list (ac_dataset async_command) @ option_list (ac_floats async_command) @ bs @
     option_list (ac_binaries async_command) @
     option_list (map_option handle (ac_statement async_command)) @ [ac_self async_command]"

definition demo_busy :: program where
  "demo_busy =
     \<lparr>sql = ''UPDATE t SET a = 1'', column_names = [], rows = [],
      final = SQLITE_BUSY, step_errmsg = ''database is locked'', last_insert_rowid = 0\<rparr>"

definition demo_constraint :: program where
  "demo_constraint =
     \<lparr>sql = ''INSERT INTO t VALUES (1)'', column_names = [], rows = [],
      final = 19, step_errmsg = ''UNIQUE constraint failed: t.a'', last_insert_rowid = 0\<rparr>"

definition demo_floats :: program where
  "demo_floats =
     \<lparr>sql = ''SELECT x FROM t'', column_names = [''x''],
      rows = [[SQLITE_FLOAT 0x3FF8000000000000], [SQLITE_FLOAT 0x4004000000000000]],
      final = SQLITE_DONE, step_errmsg = ''not an error'', last_insert_rowid = 0\<rparr>"

text \<open>
  Bounded counters. \<open>room\<close>: no counter is negative and none exceeds \<open>term_count\<close>.
  \<open>refines f g\<close>: the fragment \<open>g\<close> with unbounded counters keeps \<open>room\<close> and never
  lowers \<open>term_count\<close>, and the driver's fragment \<open>f\<close> does the same as \<open>g\<close> whenever
  \<open>g\<close> ends with a \<open>term_count\<close> of at most \<open>INT_MAX\<close>. \<open>encoded_cells\<close> is the
  number of cells that \<open>sql_exec_async\<close> writes: 2 for the port, \<open>2 * column_count + 9\<close>
  for the column header, for each row its cells' slots and 2 for its tuple header
  (\<open>row_cells\<close>), and 10 or 8 for the end of a reply after \<open>SQLITE_DONE\<close>.
\<close>

definition room :: "locals \<Rightarrow> bool" where
  "room l \<longleftrightarrow>
     0 \<le> term_count l \<and> 0 \<le> row_count l \<and> row_count l \<le> term_count l \<and>
     0 \<le> float_count l \<and> float_count l \<le> term_count l \<and>
     0 \<le> binaries_count l \<and> binaries_count l \<le> term_count l"

definition refines ::
  "(locals \<times> world \<Rightarrow> locals \<times> world) \<Rightarrow> (locals \<times> world \<Rightarrow> locals \<times> world) \<Rightarrow> bool" where
  "refines f g \<longleftrightarrow>
     (\<forall>l w. room l \<longrightarrow>
        room (fst (g (l, w))) \<and> term_count l \<le> term_count (fst (g (l, w))) \<and>
        (term_count (fst (g (l, w))) \<le> INT_MAX \<longrightarrow> f (l, w) = g (l, w)))"

definition row_close :: "int \<Rightarrow> locals \<times> world \<Rightarrow> locals \<times> world" where
  "row_close column_count s =
     (case s of (l, w) \<Rightarrow>
          (let (term_count', w) = checked (term_count l + 2) w;
               (dataset', w) = realloc (dataset l) (nat term_count') w;
               w = poke dataset' (term_count' - 2) (Tag ERL_DRV_TUPLE) w;
               w = poke dataset' (term_count' - 1) (Num (of_int column_count)) w;
               (row_count', w) = checked (row_count l + 1) w
           in (l\<lparr>dataset := dataset', term_count := term_count',
                 row_count := row_count'\<rparr>, w)))"

definition row_close_u :: "int \<Rightarrow> locals \<times> world \<Rightarrow> locals \<times> world" where
  "row_close_u column_count s =
     (case s of (l, w) \<Rightarrow>
          (let term_count' = term_count l + 2;
               (dataset', w) = realloc (dataset l) (nat term_count') w;
               w = poke dataset' (term_count' - 2) (Tag ERL_DRV_TUPLE) w;
               w = poke dataset' (term_count' - 1) (Num (of_int column_count)) w
           in (l\<lparr>dataset := dataset', term_count := term_count',
                 row_count := row_count l + 1\<rparr>, w)))"

definition row_cells :: "int \<Rightarrow> cell list \<Rightarrow> nat" where
  "row_cells column_count row = sum_list (map slot_width (cells column_count row)) + 2"

definition encoded_cells :: "int \<Rightarrow> cell list list \<Rightarrow> int \<Rightarrow> int" where
  "encoded_cells column_count rws next_row =
     2 + (if 0 < column_count then 2 * column_count + 9 else 0) +
     int (sum_list (map (row_cells column_count) rws)) +
     (if next_row = SQLITE_DONE then (if 0 < column_count then 10 else 8) else 0)"

fun cells_in_place :: "cell list \<Rightarrow> locals \<times> world \<Rightarrow> bool" where
  "cells_in_place [] s = True"
| "cells_in_place (c # cs) s = (cell_in_place c s \<and> cells_in_place cs (encode_column c s))"

fun rows_in_place :: "int \<Rightarrow> cell list list \<Rightarrow> locals \<times> world \<Rightarrow> bool" where
  "rows_in_place column_count [] s = True"
| "rows_in_place column_count (row # rest) s =
     (cells_in_place (cells column_count row) s \<and>
      rows_in_place column_count rest (encode_row column_count row s))"

definition locals0 :: "async_sqlite3_command \<Rightarrow> locals" where
  "locals0 async_command =
     \<lparr>dataset = None, term_count = ac_term_count async_command,
      row_count = ac_row_count async_command, floats = None, float_count = 0,
      binaries = None, binaries_count = 0\<rparr>"

text \<open>
  The statement, the record and the world at the call of \<open>sql_exec_async\<close>, for a
  command that compiles to \<open>q\<close>; \<open>None\<close> is the NULL handle of an empty command, for
  which \<open>sql_exec\<close> allocates the record only.
\<close>

definition statement_of :: "world \<Rightarrow> program option \<Rightarrow> sqlite3_stmt option" where
  "statement_of w q = map_option (prepared (brk w)) q"

definition launched :: "world \<Rightarrow> program option \<Rightarrow> world" where
  "launched w q = (case q of None \<Rightarrow> snd (alloc Command w) | Some p \<Rightarrow> dispatched w)"

definition command_of :: "world \<Rightarrow> program option \<Rightarrow> async_sqlite3_command" where
  "command_of w q =
     new_command (case q of None \<Rightarrow> brk w | Some p \<Rightarrow> Suc (brk w)) (statement_of w q)"

text \<open>More example statements: rows with NULL cells.\<close>

definition demo_null :: program where
  "demo_null =
     \<lparr>sql = ''SELECT NULL'', column_names = [''NULL''], rows = [[SQLITE_NULL]],
      final = SQLITE_DONE, step_errmsg = ''not an error'', last_insert_rowid = 0\<rparr>"

definition demo_nulls :: program where
  "demo_nulls =
     \<lparr>sql = ''SELECT a, b FROM t'', column_names = [''a'', ''b''],
      rows = [[SQLITE_FLOAT 0x3FF8000000000000, SQLITE_NULL], [SQLITE_NULL, SQLITE_INTEGER 7]],
      final = SQLITE_DONE, step_errmsg = ''not an error'', last_insert_rowid = 0\<rparr>"

section \<open>Proofs\<close>

subsection \<open>The growth idiom and the invariant of the encoder\<close>

lemma pokes_append: "pokes p i (us @ vs) w = pokes p (i + int (length us)) vs (pokes p i us w)"
  by (induction us arbitrary: i w) (simp_all add: algebra_simps)

lemma pokes_fill:
  "heap w a = Some (Array (pre @ old @ post)) \<Longrightarrow> length old = length vs \<Longrightarrow>
   pokes (Some a) (int (length pre)) vs w = w\<lparr>heap := (heap w)(a \<mapsto> Array (pre @ vs @ post))\<rparr>"
proof (induction vs arbitrary: pre old w)
  case Nil
  then show ?case by (simp add: fun_upd_idem)
next
  case (Cons v vs)
  then obtain o1 old' where old: "old = o1 # old'" by (cases old) auto
  let ?w = "w\<lparr>heap := (heap w)(a \<mapsto> Array ((pre @ [v]) @ old' @ post))\<rparr>"
  have step: "poke (Some a) (int (length pre)) v w = ?w"
    using Cons.prems by (simp add: poke_def old)
  have "pokes (Some a) (int (length (pre @ [v]))) vs ?w
        = ?w\<lparr>heap := (heap ?w)(a \<mapsto> Array ((pre @ [v]) @ vs @ post))\<rparr>"
    by (rule Cons.IH[where old = old']) (use Cons.prems old in simp_all)
  moreover have "int (length pre) + 1 = int (length (pre @ [v]))" by simp
  ultimately have ih: "pokes (Some a) (int (length pre) + 1) vs ?w
        = ?w\<lparr>heap := (heap ?w)(a \<mapsto> Array ((pre @ [v]) @ vs @ post))\<rparr>"
    by (simp only:)
  have "pokes (Some a) (int (length pre)) (v # vs) w
        = pokes (Some a) (int (length pre) + 1) vs (poke (Some a) (int (length pre)) v w)"
    by simp
  also have "\<dots> = pokes (Some a) (int (length pre) + 1) vs ?w" by (simp only: step)
  also have "\<dots> = ?w\<lparr>heap := (heap ?w)(a \<mapsto> Array ((pre @ [v]) @ vs @ post))\<rparr>" by (rule ih)
  also have "\<dots> = w\<lparr>heap := (heap w)(a \<mapsto> Array (pre @ (v # vs) @ post))\<rparr>" by simp
  finally show ?case .
qed

lemma realloc_pokes:
  assumes "holds p w xs"
  shows "(case realloc p (length xs + length vs) w of (d, w1) \<Rightarrow> (d, pokes d (int (length xs)) vs w1))
         = grow p xs vs w"
proof (cases p)
  case None
  then have xs: "xs = []" using assms by (simp add: holds_def)
  let ?w1 = "w\<lparr>heap := (heap w)(brk w \<mapsto> Array ([] @ replicate (length vs) Indeterminate @ [])), brk := Suc (brk w)\<rparr>"
  have "pokes (Some (brk w)) (int (length ([]::mword list))) vs ?w1 = ?w1\<lparr>heap := (heap ?w1)(brk w \<mapsto> Array ([] @ vs @ []))\<rparr>"
    by (rule pokes_fill[where old = "replicate (length vs) Indeterminate"]) simp_all
  then show ?thesis using None xs by (simp add: realloc_def alloc_def grow_def)
next
  case (Some a)
  then have h: "heap w a = Some (Array xs)" using assms by (simp add: holds_def)
  have rs: "resize (length xs + length vs) xs = xs @ replicate (length vs) Indeterminate @ []"
    by (simp add: resize_def)
  show ?thesis
  proof (cases "relocates w (reallocs w)")
    case True
    let ?w1 = "w\<lparr>heap := (heap w)(a := None, brk w \<mapsto> Array (xs @ replicate (length vs) Indeterminate @ [])),
                        brk := Suc (brk w), reallocs := Suc (reallocs w),
                        released := released w @ [a]\<rparr>"
    have "pokes (Some (brk w)) (int (length xs)) vs ?w1 = ?w1\<lparr>heap := (heap ?w1)(brk w \<mapsto> Array (xs @ vs @ []))\<rparr>"
      by (rule pokes_fill[where old = "replicate (length vs) Indeterminate"]) simp_all
    then show ?thesis using Some h True rs by (simp add: realloc_def grow_def)
  next
    case False
    let ?w1 = "w\<lparr>heap := (heap w)(a \<mapsto> Array (xs @ replicate (length vs) Indeterminate @ [])),
                        reallocs := Suc (reallocs w)\<rparr>"
    have "pokes (Some a) (int (length xs)) vs ?w1 = ?w1\<lparr>heap := (heap ?w1)(a \<mapsto> Array (xs @ vs @ []))\<rparr>"
      by (rule pokes_fill[where old = "replicate (length vs) Indeterminate"]) simp_all
    then show ?thesis using Some h False rs by (simp add: realloc_def grow_def)
  qed
qed

lemma grow_facts:
  assumes "holds p w xs" "fresh w"
  shows "\<exists>da w'. grow p xs vs w = (Some da, w') \<and> grown p (xs @ vs) w da w'"
proof (cases p)
  case None
  then show ?thesis
    using assms by (auto simp: grow_def grown_def fresh_def holds_def)
next
  case (Some a)
  then have h: "heap w a = Some (Array xs)" using assms by (simp add: holds_def)
  then have lt: "a < brk w" using assms(2) by (metis fresh_def not_le option.distinct(1))
  show ?thesis
    using Some assms lt by (auto simp: grow_def grown_def fresh_def holds_def)
qed

lemma drv_poke [simp]: "drv (poke p i v w) = drv w"
  by (simp add: poke_def split: option.splits block.splits)

lemma drv_realloc: "realloc p n w = (d, w1) \<Longrightarrow> drv w1 = drv w"
  by (auto simp: realloc_def alloc_def split: option.splits block.splits if_splits)

lemma live_lt: "fresh w \<Longrightarrow> heap w a = Some b \<Longrightarrow> a < brk w"
  by (metis fresh_def not_le option.distinct(1))

lemma frame_refl: "frame w w" by (simp add: frame_def)

lemma frame_trans: "frame w w1 \<Longrightarrow> frame w1 w2 \<Longrightarrow> frame w w2"
  unfolding frame_def by auto

lemma extends_refl: "extends h h"
  by (auto simp: extends_def)

lemma plain_nth: "list_all plain xs \<Longrightarrow> i < length xs \<Longrightarrow> xs ! i \<noteq> Double d"
  by (auto simp: list_all_length)

lemma extends_trans:
  assumes "extends h h1" "extends h1 h2"
  shows "extends h h2"
  unfolding extends_def
proof (intro conjI allI impI)
  fix a bytes assume "h a = Some (Binary bytes)"
  then show "h2 a = Some (Binary bytes)" using assms by (auto simp: extends_def)
next
  fix a ys i d assume a: "h a = Some (Array ys)" "i < length ys" "ys ! i = Double d"
  then obtain zs where z: "h1 a = Some (Array zs)" "i < length zs" "zs ! i = Double d"
    using assms(1) unfolding extends_def by blast
  then show "\<exists>zs. h2 a = Some (Array zs) \<and> i < length zs \<and> zs ! i = Double d"
    using assms(2) unfolding extends_def by blast
qed

lemma push_inv:
  assumes "inv l w xs fs bs" "list_all plain vs"
  obtains da w' where
    "push xs vs (l, w) = (l\<lparr>dataset := Some da, term_count := term_count l + int (length vs)\<rparr>, w')"
    "inv (l\<lparr>dataset := Some da, term_count := term_count l + int (length vs)\<rparr>) w' (xs @ vs) fs bs"
    "frame w w'"
    "extends (heap w) (heap w')"
proof -
  from assms have h: "holds (dataset l) w xs" and f: "fresh w" by (auto simp: inv_def)
  have "list_all plain xs" using assms(1) by (simp add: inv_def)
  then have px: "\<And>i d. i < length xs \<Longrightarrow> xs ! i \<noteq> Double d"
    by (rule plain_nth)
  obtain da w' where g1: "grow (dataset l) xs vs w = (Some da, w')"
    and gr: "grown (dataset l) (xs @ vs) w da w'"
    using grow_facts[OF h f, of vs] by blast
  note g = gr[unfolded grown_def]
  have lt: "\<And>a b. heap w a = Some b \<Longrightarrow> a < brk w" using f by (rule live_lt)
  have nb: "brk w \<notin> set bs" using assms lt by (fastforce simp: inv_def)
  show thesis
  proof (rule that[of da w'])
    show "push xs vs (l, w) = (l\<lparr>dataset := Some da, term_count := term_count l + int (length vs)\<rparr>, w')"
      using g1 by (simp add: push_def)
    show "inv (l\<lparr>dataset := Some da, term_count := term_count l + int (length vs)\<rparr>) w' (xs @ vs) fs bs"
      using assms g lt nb
      by (auto simp: inv_def holds_def split: option.splits)
    show "frame w w'"
      using assms g lt by (auto simp: frame_def inv_def holds_def split: option.splits)
    show "extends (heap w) (heap w')"
      using assms(1) g lt px
      by (auto simp: extends_def inv_def holds_def split: option.splits)
  qed
qed

lemma push_idiom:
  assumes "holds (dataset l) w xs" "realloc (dataset l) (length xs + length vs) w = (d, w1)"
  shows "push xs vs (l, w) =
         (l\<lparr>dataset := d, term_count := term_count l + int (length vs)\<rparr>,
          pokes d (int (length xs)) vs w1)"
  using realloc_pokes[OF assms(1), of vs, symmetric] assms(2) by (simp add: push_def)

lemma length_column_slots [simp]: "length (column_slots statement n) = 2 * n"
  by (induction n) (simp_all add: column_slots_def)

lemma fold_column_pokes:
  "fold (\<lambda>i w. poke d (base + 2 + (int i * 2) + 1) (Atom (sqlite3_column_name statement i))
                 (poke d (base + 2 + (int i * 2)) (Tag ERL_DRV_ATOM) w)) [0..<n] w
   = pokes d (base + 2) (column_slots statement n) w"
proof (induction n)
  case 0
  show ?case by (simp add: column_slots_def)
next
  case (Suc n)
  have cs: "column_slots statement (Suc n)
            = column_slots statement n @ [Tag ERL_DRV_ATOM, Atom (sqlite3_column_name statement n)]"
    by (simp add: column_slots_def)
  show ?case
    unfolding cs pokes_append
    using Suc by (simp add: algebra_simps)
qed

lemma columns_header_push:
  assumes "holds (dataset l) w xs" "term_count l = int (length xs)"
  shows "columns_header_u statement (int n) (l, w) = push xs (header_slots statement n) (l, w)"
proof -
  obtain d w1 where r: "realloc (dataset l) (length xs + length (header_slots statement n)) w = (d, w1)"
    by (cases "realloc (dataset l) (length xs + length (header_slots statement n)) w")
  have len: "nat (int (length xs) + (2 + int n * 2 + 1 + 2 + 2 + 2))
             = length xs + length (header_slots statement n)"
    by (simp add: header_slots_def nat_add_distrib nat_mult_distrib)
  have "pokes d (int (length xs)) (header_slots statement n) w1 =
     poke d (int (length xs) + 2 + int n * 2 + 6) (Atom ''rows'')
      (poke d (int (length xs) + 2 + int n * 2 + 5) (Tag ERL_DRV_ATOM)
      (poke d (int (length xs) + 2 + int n * 2 + 4) (Num 2)
      (poke d (int (length xs) + 2 + int n * 2 + 3) (Tag ERL_DRV_TUPLE)
      (poke d (int (length xs) + 2 + int n * 2 + 2) (Num (of_int (int n + 1)))
      (poke d (int (length xs) + 2 + int n * 2 + 1) (Tag ERL_DRV_LIST)
      (poke d (int (length xs) + 2 + int n * 2 + 0) (Tag ERL_DRV_NIL)
      (pokes d (int (length xs) + 2) (column_slots statement n)
      (poke d (int (length xs) + 1) (Atom ''columns'')
      (poke d (int (length xs)) (Tag ERL_DRV_ATOM) w1)))))))))"
    unfolding header_slots_def pokes_append by (simp add: algebra_simps)
  then show ?thesis
    unfolding push_idiom[OF assms(1) r] columns_header_u_def fold_column_pokes
    using r assms(2) len
    by (simp add: Let_def)
qed

lemma drv_pokes [simp]: "drv (pokes p i vs w) = drv w"
  by (induction vs arbitrary: i w) simp_all

lemma port_header_push:
  assumes "holds (dataset l) w xs" "term_count l = int (length xs)"
  shows "port_header_u (l, w) = push xs [Tag ERL_DRV_PORT, Port (port (drv w))] (l, w)"
proof -
  obtain d w1 where r: "realloc (dataset l) (length xs + length [Tag ERL_DRV_PORT, Port (port (drv w))]) w = (d, w1)"
    by (cases "realloc (dataset l) (length xs + length [Tag ERL_DRV_PORT, Port (port (drv w))]) w")
  have "drv w1 = drv w" using r by (rule drv_realloc)
  then show ?thesis
    unfolding push_idiom[OF assms(1) r]
    using r assms(2) by (simp add: port_header_u_def Let_def nat_add_distrib ac_simps)
qed

lemma close_reply_push:
  assumes "holds (dataset l) w xs" "term_count l = int (length xs)"
  shows "close_reply_u (l, w) = push xs [Tag ERL_DRV_TUPLE, Num 2] (l, w)"
proof -
  obtain d w1 where r: "realloc (dataset l) (length xs + length [Tag ERL_DRV_TUPLE, Num 2]) w = (d, w1)"
    by (cases "realloc (dataset l) (length xs + length [Tag ERL_DRV_TUPLE, Num 2]) w")
  show ?thesis
    unfolding push_idiom[OF assms(1) r]
    using r assms(2) by (simp add: close_reply_u_def Let_def nat_add_distrib ac_simps)
qed

lemma encode_integer_push:
  assumes "holds (dataset l) w xs" "term_count l = int (length xs)"
  shows "encode_column_u (SQLITE_INTEGER v) (l, w)
         = push xs [Tag ERL_DRV_INT, Num (of_int (sqlite3_column_int v))] (l, w)"
proof -
  obtain d w1 where r: "realloc (dataset l) (length xs + length [Tag ERL_DRV_INT, Num (of_int (sqlite3_column_int v))]) w = (d, w1)"
    by (cases "realloc (dataset l) (length xs + length [Tag ERL_DRV_INT, Num (of_int (sqlite3_column_int v))]) w")
  show ?thesis
    unfolding push_idiom[OF assms(1) r]
    using r assms(2) by (simp add: encode_column_u_def Let_def nat_add_distrib ac_simps)
qed

lemma realloc_facts:
  assumes "holds p w xs" "fresh w"
  shows "\<exists>da w'. realloc p n w = (Some da, w') \<and> grown p (resize n xs) w da w'"
proof (cases p)
  case None
  then show ?thesis
    using assms by (auto simp: realloc_def alloc_def grown_def fresh_def holds_def resize_def)
next
  case (Some a)
  then have h: "heap w a = Some (Array xs)" using assms by (simp add: holds_def)
  then have lt: "a < brk w" using assms(2) by (metis fresh_def not_le option.distinct(1))
  show ?thesis
    using Some assms lt by (auto simp: realloc_def grown_def fresh_def holds_def)
qed

lemma list_update_at_length: "length xs = n \<Longrightarrow> (xs @ x # ys)[n := y] = xs @ y # ys"
  by auto

lemma float_pool_step_inv:
  assumes "inv l w xs fs bs"
  obtains fa w' where
    "float_pool_step_u d (l, w) = (l\<lparr>floats := Some fa, float_count := float_count l + 1\<rparr>, w')"
    "inv (l\<lparr>floats := Some fa, float_count := float_count l + 1\<rparr>) w' xs (fs @ [d]) bs"
    "frame w w'"
    "floats l = None \<or> \<not> relocates w (reallocs w) \<Longrightarrow> extends (heap w) (heap w')"
proof -
  from assms have h: "holds (floats l) w (map Double fs)" and f: "fresh w"
    and fc: "float_count l = int (length fs)" by (auto simp: inv_def)
  obtain fa w1 where r: "realloc (floats l) (length fs + 1) w = (Some fa, w1)"
    and gr: "grown (floats l) (resize (length fs + 1) (map Double fs)) w fa w1"
    using realloc_facts[OF h f, of "length fs + 1"] by blast
  note g = gr[unfolded grown_def]
  have rs: "resize (length fs + 1) (map Double fs) = map Double fs @ [Indeterminate]"
    by (simp add: resize_def)
  define w' where "w' = w1\<lparr>heap := (heap w1)(fa \<mapsto> Array (map Double (fs @ [d])))\<rparr>"
  have pk: "poke (Some fa) (int (length fs)) (Double d) w1 = w'"
    using g rs by (simp add: poke_def w'_def list_update_at_length)
  have lt: "\<And>a b. heap w a = Some b \<Longrightarrow> a < brk w" using f by (rule live_lt)
  have nb: "brk w \<notin> set bs" using assms lt by (fastforce simp: inv_def)
  show thesis
  proof (rule that[of fa w'])
    show "float_pool_step_u d (l, w) = (l\<lparr>floats := Some fa, float_count := float_count l + 1\<rparr>, w')"
      using r pk fc by (simp add: float_pool_step_u_def Let_def nat_add_distrib)
    show "inv (l\<lparr>floats := Some fa, float_count := float_count l + 1\<rparr>) w' xs (fs @ [d]) bs"
      using assms g lt nb
      by (auto simp: inv_def holds_def w'_def fresh_def split: option.splits)
    show "frame w w'"
      using assms g lt by (auto simp: frame_def inv_def holds_def w'_def split: option.splits)
    show "extends (heap w) (heap w')" if "floats l = None \<or> \<not> relocates w (reallocs w)"
      using assms g that lt
      by (auto simp: extends_def inv_def holds_def w'_def nth_append split: option.splits)
  qed
qed

lemma blob_pool_step_inv:
  assumes "inv l w xs fs bs"
  obtains ba b w' where
    "blob_pool_step_u src (l, w) = (l\<lparr>binaries := Some ba, binaries_count := binaries_count l + 1\<rparr>, w')"
    "inv (l\<lparr>binaries := Some ba, binaries_count := binaries_count l + 1\<rparr>) w' xs fs (bs @ [b])"
    "heap w' b = Some (Binary src)"
    "frame w w'"
    "extends (heap w) (heap w')"
proof -
  from assms have h: "holds (binaries l) w (map BinaryPtr bs)" and f: "fresh w"
    and bc: "binaries_count l = int (length bs)" by (auto simp: inv_def)
  obtain ba w1 where r: "realloc (binaries l) (length bs + 1) w = (Some ba, w1)"
    and gr: "grown (binaries l) (resize (length bs + 1) (map BinaryPtr bs)) w ba w1"
    using realloc_facts[OF h f, of "length bs + 1"] by blast
  note g = gr[unfolded grown_def]
  have rs: "resize (length bs + 1) (map BinaryPtr bs) = map BinaryPtr bs @ [Indeterminate]"
    by (simp add: resize_def)
  define b where "b = brk w1"
  define w2 where "w2 = w1\<lparr>heap := (heap w1)(b \<mapsto> Binary (replicate (length src) 0)), brk := Suc b\<rparr>"
  define w3 where "w3 = w2\<lparr>heap := (heap w2)(ba \<mapsto> Array (map BinaryPtr (bs @ [b])))\<rparr>"
  define w' where "w' = w3\<lparr>heap := (heap w3)(b \<mapsto> Binary src)\<rparr>"
  have ne: "ba \<noteq> b" using g by (simp add: b_def)
  have a2: "driver_alloc_binary (length src) w1 = (BinaryPtr b, w2)"
    by (simp add: driver_alloc_binary_def alloc_def w2_def b_def)
  have pk: "poke (Some ba) (int (length bs)) (BinaryPtr b) w2 = w3"
    using g rs ne by (simp add: poke_def w2_def w3_def list_update_at_length)
  have pe: "peek (Some ba) (int (length bs)) w3 = BinaryPtr b"
    by (simp add: peek_def w3_def nth_append)
  have mc: "memcpy_orig_bytes (BinaryPtr b) src (length src) w3 = w'"
    using ne by (simp add: memcpy_orig_bytes_def w3_def w2_def w'_def)
  have lt: "\<And>a blk. heap w a = Some blk \<Longrightarrow> a < brk w" using f by (rule live_lt)
  have nb: "brk w \<notin> set bs" using assms lt by (fastforce simp: inv_def)
  have blt: "\<And>x. x \<in> set bs \<Longrightarrow> x < brk w" using assms lt by (fastforce simp: inv_def)
  have bw: "brk w \<le> b" using g by (simp add: b_def)
  have hb: "heap w b = None" using f bw by (simp add: fresh_def)
  have bn: "b \<notin> set bs" using blt bw by fastforce
  have fw1: "fresh w1" using g by blast
  have f1: "\<And>a. b \<le> a \<Longrightarrow> heap w1 a = None" using fw1 unfolding fresh_def b_def by blast
  show thesis
  proof (rule that[of ba w' b])
    show "blob_pool_step_u src (l, w)
          = (l\<lparr>binaries := Some ba, binaries_count := binaries_count l + 1\<rparr>, w')"
      using r a2 pk pe mc bc
      by (simp add: blob_pool_step_u_def Let_def nat_add_distrib sqlite3_column_bytes_def)
    show "heap w' b = Some (Binary src)" by (simp add: w'_def)
    show "inv (l\<lparr>binaries := Some ba, binaries_count := binaries_count l + 1\<rparr>) w' xs fs (bs @ [b])"
      unfolding inv_def
    proof (intro conjI)
      have "ba < b" using g by (simp add: b_def)
      then show "fresh w'" using f1 by (auto simp: fresh_def w'_def w3_def w2_def)
      show "\<not> crashed w'" using assms g by (simp add: inv_def w'_def w3_def w2_def)
      show "distinct (bs @ [b])" using assms bn by (simp add: inv_def)
    qed (use assms g lt nb ne hb bw blt bn in
          \<open>auto simp: inv_def holds_def w'_def w3_def w2_def split: option.splits\<close>)
    show "frame w w'"
      using assms g lt ne hb bw
      by (auto simp: frame_def inv_def holds_def w'_def w3_def w2_def split: option.splits)
    show "extends (heap w) (heap w')"
      using assms g lt ne hb bw
      by (auto simp: extends_def inv_def holds_def w'_def w3_def w2_def split: option.splits)
  qed
qed

lemma encode_float_push:
  assumes "holds (dataset l) w xs" "term_count l = int (length xs)"
  shows "(let term_count' = term_count l + 2;
              (dataset', w) = realloc (dataset l) (nat term_count') w;
              w = poke dataset' (term_count' - 2) (Tag ERL_DRV_FLOAT) w;
              w = poke dataset' (term_count' - 1) v w
          in (l\<lparr>dataset := dataset', term_count := term_count'\<rparr>, w))
         = push xs [Tag ERL_DRV_FLOAT, v] (l, w)"
proof -
  obtain d w1 where r: "realloc (dataset l) (length xs + length [Tag ERL_DRV_FLOAT, v]) w = (d, w1)"
    by (cases "realloc (dataset l) (length xs + length [Tag ERL_DRV_FLOAT, v]) w")
  show ?thesis
    unfolding push_idiom[OF assms(1) r]
    using r assms(2) by (simp add: Let_def nat_add_distrib ac_simps)
qed

lemma peek_poke_other: "p \<noteq> q \<Longrightarrow> peek p i (poke q j v w) = peek p i w"
  by (auto simp: peek_def poke_def split: option.splits block.splits)

lemma encode_blob_push:
  assumes "inv l w xs fs (bs @ [b])" "binaries_count l = int (length bs) + 1"
  shows "(let bytes = int n;
              term_count' = term_count l + 4;
              (dataset', w) = realloc (dataset l) (nat term_count') w;
              w = poke dataset' (term_count' - 4) (Tag ERL_DRV_BINARY) w;
              w = poke dataset' (term_count' - 3) (peek (binaries l) (binaries_count l - 1) w) w;
              w = poke dataset' (term_count' - 2) (Num (of_int bytes)) w;
              w = poke dataset' (term_count' - 1) (Num 0) w
          in (l\<lparr>dataset := dataset', term_count := term_count'\<rparr>, w))
         = push xs [Tag ERL_DRV_BINARY, BinaryPtr b, Num (of_int (int n)), Num 0] (l, w)"
proof -
  let ?vs = "[Tag ERL_DRV_BINARY, BinaryPtr b, Num (of_int (int n)), Num 0]"
  from assms have h: "holds (dataset l) w xs" and f: "fresh w"
    and tc: "term_count l = int (length xs)"
    and hb: "holds (binaries l) w (map BinaryPtr (bs @ [b]))" by (auto simp: inv_def)
  obtain da w1 where r: "realloc (dataset l) (length xs + length ?vs) w = (Some da, w1)"
    and gr: "grown (dataset l) (resize (length xs + length ?vs) xs) w da w1"
    using realloc_facts[OF h f, of "length xs + length ?vs"] by blast
  note g = gr[unfolded grown_def]
  have lt: "\<And>a blk. heap w a = Some blk \<Longrightarrow> a < brk w" using f by (rule live_lt)
  obtain ba where ba: "binaries l = Some ba" "heap w ba = Some (Array (map BinaryPtr (bs @ [b])))"
    using hb assms(2) by (cases "binaries l") (auto simp: holds_def)
  have nd: "binaries l \<noteq> Some da" "Some ba \<noteq> dataset l"
    using assms(1) g ba lt by (auto simp: inv_def)
  have "heap w1 ba = Some (Array (map BinaryPtr (bs @ [b])))"
    using g ba nd by auto
  then have pe: "peek (binaries l) (int (length bs)) w1 = BinaryPtr b"
    using ba by (simp add: peek_def nth_append)
  have pe': "peek (binaries l) (int (length bs)) (poke (Some da) (int (length xs)) (Tag ERL_DRV_BINARY) w1)
             = BinaryPtr b"
    using nd pe by (simp add: peek_poke_other)
  have n4: "nat (term_count l + 4) = length xs + length ?vs" using tc by simp
  have r': "realloc (dataset l) (nat (term_count l + 4)) w = (Some da, w1)"
    unfolding n4 by (rule r)
  show ?thesis
    unfolding push_idiom[OF h r] Let_def r'
    using tc assms(2) pe' by (simp add: ac_simps)
qed

lemma sint_column_int: "sint (of_int (sqlite3_column_int v) :: 64 word) = sqlite3_column_int v"
proof -
  have "sint (scast (ucast v :: 32 word) :: 64 word) = sint (ucast v :: 32 word)"
    by (rule sint_up_scast) (simp add: is_up)
  then show ?thesis by (simp add: sqlite3_column_int_def)
qed

lemma driver_term_append:
  "driver_term h xs st = Some st' \<Longrightarrow> driver_term h (xs @ ys) st = driver_term h ys st'"
proof (induction h xs st rule: driver_term.induct)
  case (1 h st)
  then show ?case by simp
next
  case (2 h x xs st)
  from "2.prems" obtain t where x: "x = Tag t" by (cases x) auto
  from "2.prems" x have len: "\<not> length xs < term_args t" by (auto split: if_splits)
  from "2.prems" x len obtain st1 where b: "build_term h t (take (term_args t) xs) st = Some st1"
    and rest: "driver_term h (drop (term_args t) xs) st1 = Some st'"
    by (auto split: option.splits)
  have "driver_term h (drop (term_args t) xs @ ys) st1 = driver_term h ys st'"
    using "2.IH"[OF x len b rest] .
  then show ?case using x len b by simp
qed

lemma build_term_mono:
  assumes "extends h h'" "build_term h t args st = Some r"
  shows "build_term h' t args st = Some r"
proof (cases t)
  case ERL_DRV_BINARY
  show ?thesis
  proof -
    from assms(2) ERL_DRV_BINARY obtain a len off bs where
      args: "args = [BinaryPtr a, Num len, Num off]" and ha: "h a = Some (Binary bs)"
      by (auto split: list.splits mword.splits option.splits block.splits if_splits)
    from assms(1) ha have "h' a = Some (Binary bs)" unfolding extends_def by blast
    with assms(2) ERL_DRV_BINARY args ha show ?thesis by simp
  qed
next
  case ERL_DRV_FLOAT
  show ?thesis
  proof -
    from assms(2) ERL_DRV_FLOAT obtain a i xs d where
      args: "args = [FloatPtr a i]" and ha: "h a = Some (Array xs)" and i: "i < length xs"
      and d: "xs ! i = Double d" and r: "r = EFloat d # st"
      by (auto split: list.splits mword.splits option.splits block.splits if_splits)
    from assms(1) ha i d obtain zs where "h' a = Some (Array zs)" "i < length zs" "zs ! i = Double d"
      unfolding extends_def by blast
    with args r ERL_DRV_FLOAT show ?thesis by simp
  qed
qed (use assms(2) in auto)

lemma driver_term_mono:
  "extends h h' \<Longrightarrow> driver_term h xs st = Some r \<Longrightarrow> driver_term h' xs st = Some r"
proof (induction h xs st rule: driver_term.induct)
  case (1 h st)
  then show ?case by simp
next
  case (2 h x xs st)
  from "2.prems" obtain t where x: "x = Tag t" by (cases x) auto
  from "2.prems" x have len: "\<not> length xs < term_args t" by (auto split: if_splits)
  from "2.prems" x len obtain st1 where b: "build_term h t (take (term_args t) xs) st = Some st1"
    and rest: "driver_term h (drop (term_args t) xs) st1 = Some r"
    by (auto split: option.splits)
  have b': "build_term h' t (take (term_args t) xs) st = Some st1"
    using build_term_mono[OF "2.prems"(1) b] .
  have "driver_term h' (drop (term_args t) xs) st1 = Some r"
    using "2.IH"[OF x len b "2.prems"(1) rest] .
  then show ?case using x len b' by simp
qed

lemma stepped_trans:
  "stepped q1 l w xs l1 w1 vs1 \<Longrightarrow> stepped q2 l1 w1 (xs @ vs1) l2 w2 vs2 \<Longrightarrow>
   stepped (q1 \<and> q2) l w xs l2 w2 (vs1 @ vs2)"
  unfolding stepped_def
  by (auto intro: frame_trans extends_trans)

lemma stepped_weaken: "stepped q l w xs l' w' vals \<Longrightarrow> (q' \<Longrightarrow> q) \<Longrightarrow> stepped q' l w xs l' w' vals"
  unfolding stepped_def by auto

lemma unat_of_int_small: "n < 2 ^ 31 \<Longrightarrow> unat (of_int (int n) :: 64 word) = n"
  by (simp add: unat_of_nat)

lemma encode_blob_step:
  assumes "inv l w xs fs bs"
  shows "\<exists>l' w' vals. encode_blob_u src (l, w) = (l', w') \<and> stepped True l w xs l' w' vals \<and>
           row_count l' = row_count l \<and> length vals = 4 \<and>
           (length src < 2 ^ 31 \<longrightarrow>
              (\<forall>st. driver_term (heap w') vals st = Some (EBinary src # st)))"
proof -
  obtain ba b w1 where
    p: "blob_pool_step_u src (l, w) = (l\<lparr>binaries := Some ba, binaries_count := binaries_count l + 1\<rparr>, w1)"
    and i1: "inv (l\<lparr>binaries := Some ba, binaries_count := binaries_count l + 1\<rparr>) w1 xs fs (bs @ [b])"
    and hb: "heap w1 b = Some (Binary src)"
    and fr1: "frame w w1"
    and ex1: "extends (heap w) (heap w1)"
    by (rule blob_pool_step_inv[OF assms, of src]) blast
  let ?l1 = "l\<lparr>binaries := Some ba, binaries_count := binaries_count l + 1\<rparr>"
  let ?vs = "[Tag ERL_DRV_BINARY, BinaryPtr b, Num (of_int (int (length src))), Num 0]"
  have bc: "binaries_count ?l1 = int (length bs) + 1" using assms by (simp add: inv_def)
  have pl: "list_all plain ?vs" by simp
  obtain da w2 where
    q: "push xs ?vs (?l1, w1) = (?l1\<lparr>dataset := Some da, term_count := term_count ?l1 + int (length ?vs)\<rparr>, w2)"
    and i2: "inv (?l1\<lparr>dataset := Some da, term_count := term_count ?l1 + int (length ?vs)\<rparr>) w2 (xs @ ?vs) fs (bs @ [b])"
    and fr2: "frame w1 w2"
    and ex2: "extends (heap w1) (heap w2)"
    by (rule push_inv[OF i1 pl]) blast
  let ?l2 = "?l1\<lparr>dataset := Some da, term_count := term_count ?l1 + int (length ?vs)\<rparr>"
  have e: "encode_blob_u src (l, w) = (?l2, w2)"
    unfolding encode_blob_u_def p
    using encode_blob_push[OF i1 bc, of "length src"] q
    by (simp add: sqlite3_column_bytes_def)
  have hb2: "heap w2 b = Some (Binary src)" using fr2 hb by (simp add: frame_def)
  have st: "stepped True l w xs ?l2 w2 ?vs"
    unfolding stepped_def using i2 fr1 fr2 ex1 ex2
    by (auto intro: frame_trans extends_trans)
  have dec: "driver_term (heap w2) ?vs st = Some (EBinary src # st)" if "length src < 2 ^ 31" for st
    using hb2 unat_of_int_small[OF that] by simp
  show ?thesis using e st dec by (intro exI[of _ ?l2] exI[of _ w2] exI[of _ ?vs]) simp
qed

lemma push_step:
  assumes "inv l w xs fs bs" "list_all plain vs"
  shows "\<exists>l' w'. push xs vs (l, w) = (l', w') \<and> stepped True l w xs l' w' vs \<and>
           row_count l' = row_count l"
proof -
  obtain da w' where
    q: "push xs vs (l, w) = (l\<lparr>dataset := Some da, term_count := term_count l + int (length vs)\<rparr>, w')"
    and i2: "inv (l\<lparr>dataset := Some da, term_count := term_count l + int (length vs)\<rparr>) w' (xs @ vs) fs bs"
    and fr: "frame w w'"
    and ex: "extends (heap w) (heap w')"
    by (rule push_inv[OF assms]) blast
  show ?thesis using q i2 fr ex by (auto simp: stepped_def)
qed

lemma encode_float_step:
  assumes "inv l w xs fs bs"
  shows "\<exists>l' w' vals. encode_column_u (SQLITE_FLOAT d) (l, w) = (l', w') \<and>
           stepped (floats l = None \<or> \<not> relocates w (reallocs w)) l w xs l' w' vals \<and>
           row_count l' = row_count l \<and> length vals = 2 \<and>
           (\<forall>st. driver_term (heap w') vals st = Some (EFloat d # st))"
proof -
  obtain fa w1 where
    p: "float_pool_step_u d (l, w) = (l\<lparr>floats := Some fa, float_count := float_count l + 1\<rparr>, w1)"
    and i1: "inv (l\<lparr>floats := Some fa, float_count := float_count l + 1\<rparr>) w1 xs (fs @ [d]) bs"
    and fr1: "frame w w1"
    and ex1: "floats l = None \<or> \<not> relocates w (reallocs w) \<Longrightarrow> extends (heap w) (heap w1)"
    by (rule float_pool_step_inv[OF assms, of d]) blast
  let ?l1 = "l\<lparr>floats := Some fa, float_count := float_count l + 1\<rparr>"
  let ?vs = "[Tag ERL_DRV_FLOAT, FloatPtr fa (length fs)]"
  have fc: "float_count l = int (length fs)" using assms by (simp add: inv_def)
  have pl: "list_all plain ?vs" by simp
  obtain da w2 where
    q: "push xs ?vs (?l1, w1) = (?l1\<lparr>dataset := Some da, term_count := term_count ?l1 + int (length ?vs)\<rparr>, w2)"
    and i2: "inv (?l1\<lparr>dataset := Some da, term_count := term_count ?l1 + int (length ?vs)\<rparr>) w2 (xs @ ?vs) (fs @ [d]) bs"
    and fr2: "frame w1 w2"
    and ex2: "extends (heap w1) (heap w2)"
    by (rule push_inv[OF i1 pl]) blast
  let ?l2 = "?l1\<lparr>dataset := Some da, term_count := term_count ?l1 + int (length ?vs)\<rparr>"
  have h1: "holds (dataset ?l1) w1 xs" "term_count ?l1 = int (length xs)"
    using i1 by (auto simp: inv_def)
  have ea: "elem_addr (floats ?l1) (float_count ?l1 - 1) = FloatPtr fa (length fs)"
    using fc by (simp add: elem_addr_def)
  have e: "encode_column_u (SQLITE_FLOAT d) (l, w) = (?l2, w2)"
    unfolding encode_column_u_def cell.case p prod.case encode_float_push[OF h1] ea
    using q by simp
  have hf: "heap w2 fa = Some (Array (map Double (fs @ [d])))"
    using i2 by (simp add: inv_def holds_def)
  have st: "stepped (floats l = None \<or> \<not> relocates w (reallocs w)) l w xs ?l2 w2 ?vs"
    unfolding stepped_def using i2 fr1 fr2 ex1 ex2
    by (auto intro: frame_trans extends_trans)
  have dec: "driver_term (heap w2) ?vs st = Some (EFloat d # st)" for st
    using hf by (simp add: nth_append)
  show ?thesis using e st dec by (intro exI[of _ ?l2] exI[of _ w2] exI[of _ ?vs]) simp
qed

lemma encode_integer_step:
  assumes "inv l w xs fs bs"
  shows "\<exists>l' w' vals. encode_column_u (SQLITE_INTEGER v) (l, w) = (l', w') \<and> stepped True l w xs l' w' vals \<and>
           row_count l' = row_count l \<and> length vals = 2 \<and>
           (\<forall>st. driver_term (heap w') vals st = Some (EInt (sqlite3_column_int v) # st))"
proof -
  let ?vs = "[Tag ERL_DRV_INT, Num (of_int (sqlite3_column_int v))]"
  have h: "holds (dataset l) w xs" "term_count l = int (length xs)"
    using assms by (auto simp: inv_def)
  have pl: "list_all plain ?vs" by simp
  obtain l' w' where q: "push xs ?vs (l, w) = (l', w')" and st: "stepped True l w xs l' w' ?vs"
    and rc: "row_count l' = row_count l"
    using push_step[OF assms pl] by blast
  have e: "encode_column_u (SQLITE_INTEGER v) (l, w) = (l', w')"
    using encode_integer_push[OF h, of v] q by simp
  have dec: "driver_term (heap w') ?vs st = Some (EInt (sqlite3_column_int v) # st)" for st
    by (simp add: sint_column_int)
  show ?thesis using e st rc dec by (intro exI[of _ l'] exI[of _ w'] exI[of _ ?vs]) simp
qed

lemma encode_column_step:
  assumes "inv l w xs fs bs"
  shows "\<exists>l' w' vals. encode_column_u c (l, w) = (l', w') \<and>
           stepped (cell_in_place c (l, w)) l w xs l' w' vals \<and>
           row_count l' = row_count l \<and> length vals = slot_width c \<and>
           (fits_int c \<longrightarrow> (\<forall>st. driver_term (heap w') vals st = Some (rev (cell_terms c) @ st)))"
proof (cases c)
  case (SQLITE_INTEGER v)
  then show ?thesis
    using encode_integer_step[OF assms, of v] by (auto simp: cell_in_place_def)
next
  case (SQLITE_FLOAT d)
  then show ?thesis
    using encode_float_step[OF assms, of d] by (auto simp: cell_in_place_def)
next
  case (SQLITE_TEXT src)
  then show ?thesis
    using encode_blob_step[OF assms, of src] by (auto simp: encode_column_u_def cell_in_place_def)
next
  case (SQLITE_BLOB src)
  then show ?thesis
    using encode_blob_step[OF assms, of src] by (auto simp: encode_column_u_def cell_in_place_def)
next
  case SQLITE_NULL
  have "stepped True l w xs l w []"
    using assms by (auto simp: stepped_def frame_refl extends_refl)
  then show ?thesis using SQLITE_NULL
    by (intro exI[of _ l] exI[of _ w] exI[of _ "[]"]) (simp add: encode_column_u_def cell_in_place_def)
qed

lemma inv_row_count [simp]: "inv (l\<lparr>row_count := r\<rparr>) w xs fs bs = inv l w xs fs bs"
  by (simp add: inv_def)

lemma stepped_row_count [simp]:
  "stepped q l w xs (l'\<lparr>row_count := r\<rparr>) w' vals = stepped q l w xs l' w' vals"
  by (simp add: stepped_def)

lemma stepped_inv: "stepped q l w xs l' w' vals \<Longrightarrow> \<exists>fs bs. inv l' w' (xs @ vals) fs bs"
  by (simp add: stepped_def)

lemma stepped_relocates: "stepped q l w xs l' w' vals \<Longrightarrow> relocates w' = relocates w"
  by (simp add: stepped_def frame_def)

lemma stepped_extends:
  "stepped q l w xs l' w' vals \<Longrightarrow> q \<Longrightarrow> extends (heap w) (heap w')"
  by (simp add: stepped_def)

lemma encode_cells_step:
  assumes "inv l w xs fs bs"
  shows "\<exists>l' w' vals. fold encode_column_u cs (l, w) = (l', w') \<and>
           stepped (cells_in_place_u cs (l, w)) l w xs l' w' vals \<and>
           row_count l' = row_count l \<and> length vals = sum_list (map slot_width cs) \<and>
           (cells_in_place_u cs (l, w) \<longrightarrow> list_all fits_int cs \<longrightarrow>
              (\<forall>st. driver_term (heap w') vals st = Some (rev (concat (map cell_terms cs)) @ st)))"
  using assms
proof (induction cs arbitrary: l w xs fs bs)
  case Nil
  have "stepped True l w xs l w []"
    using Nil by (auto simp: stepped_def frame_refl extends_refl)
  then show ?case by (intro exI[of _ l] exI[of _ w] exI[of _ "[]"]) simp
next
  case (Cons c cs)
  obtain l1 w1 v1 where e1: "encode_column_u c (l, w) = (l1, w1)"
    and s1: "stepped (cell_in_place c (l, w)) l w xs l1 w1 v1" and r1: "row_count l1 = row_count l"
    and n1: "length v1 = slot_width c"
    and d1: "fits_int c \<longrightarrow> (\<forall>st. driver_term (heap w1) v1 st = Some (rev (cell_terms c) @ st))"
    using encode_column_step[OF Cons.prems, of c] by blast
  obtain fs1 bs1 where i1: "inv l1 w1 (xs @ v1) fs1 bs1" using stepped_inv[OF s1] by blast
  obtain l2 w2 v2 where e2: "fold encode_column_u cs (l1, w1) = (l2, w2)"
    and s2: "stepped (cells_in_place_u cs (l1, w1)) l1 w1 (xs @ v1) l2 w2 v2"
    and r2: "row_count l2 = row_count l1"
    and n2: "length v2 = sum_list (map slot_width cs)"
    and d2: "cells_in_place_u cs (l1, w1) \<longrightarrow> list_all fits_int cs \<longrightarrow>
              (\<forall>st. driver_term (heap w2) v2 st = Some (rev (concat (map cell_terms cs)) @ st))"
    using Cons.IH[OF i1] by blast
  have q: "cells_in_place_u (c # cs) (l, w) = (cell_in_place c (l, w) \<and> cells_in_place_u cs (l1, w1))"
    using e1 by simp
  have dec: "driver_term (heap w2) (v1 @ v2) st
             = Some (rev (concat (map cell_terms (c # cs))) @ st)"
    if nr: "cells_in_place_u (c # cs) (l, w)" and ok: "list_all fits_int (c # cs)" for st
  proof -
    have nr1: "cells_in_place_u cs (l1, w1)" using nr q by simp
    have "driver_term (heap w1) v1 st = Some (rev (cell_terms c) @ st)" using d1 ok by simp
    then have "driver_term (heap w2) v1 st = Some (rev (cell_terms c) @ st)"
      using driver_term_mono[OF stepped_extends[OF s2 nr1]] by blast
    then have "driver_term (heap w2) (v1 @ v2) st = driver_term (heap w2) v2 (rev (cell_terms c) @ st)"
      by (rule driver_term_append)
    also have "\<dots> = Some (rev (concat (map cell_terms cs)) @ rev (cell_terms c) @ st)"
      using d2 nr1 ok by simp
    finally show ?thesis by simp
  qed
  have st: "stepped (cells_in_place_u (c # cs) (l, w)) l w xs l2 w2 (v1 @ v2)"
    using stepped_trans[OF s1 s2] unfolding q .
  show ?case
    using e1 e2 st r1 r2 n1 n2 dec
    by (intro exI[of _ l2] exI[of _ w2] exI[of _ "v1 @ v2"]) simp
qed

lemma length_cell_terms:
  "list_all (\<lambda>c. c \<noteq> SQLITE_NULL) cs \<Longrightarrow> length (concat (map cell_terms cs)) = length cs"
proof (induction cs)
  case Nil
  then show ?case by simp
next
  case (Cons c cs)
  then show ?case by (cases c) auto
qed

lemma row_close_push:
  assumes "holds (dataset l) w xs" "term_count l = int (length xs)"
  shows "(let term_count' = term_count l + 2;
              (dataset', w) = realloc (dataset l) (nat term_count') w;
              w = poke dataset' (term_count' - 2) (Tag ERL_DRV_TUPLE) w;
              w = poke dataset' (term_count' - 1) (Num (of_int column_count)) w
          in (l\<lparr>dataset := dataset', term_count := term_count', row_count := row_count l + 1\<rparr>, w))
         = (case push xs [Tag ERL_DRV_TUPLE, Num (of_int column_count)] (l, w) of
              (l', w') \<Rightarrow> (l'\<lparr>row_count := row_count l + 1\<rparr>, w'))"
proof -
  let ?vs = "[Tag ERL_DRV_TUPLE, Num (of_int column_count)]"
  obtain d w1 where r: "realloc (dataset l) (length xs + length ?vs) w = (d, w1)"
    by (cases "realloc (dataset l) (length xs + length ?vs) w")
  have n2: "nat (term_count l + 2) = length xs + length ?vs" using assms(2) by simp
  have r': "realloc (dataset l) (nat (term_count l + 2)) w = (d, w1)"
    unfolding n2 by (rule r)
  show ?thesis
    unfolding push_idiom[OF assms(1) r] Let_def r'
    using assms(2) by (simp add: ac_simps)
qed

lemma encode_row_step:
  assumes "inv l w xs fs bs"
  shows "\<exists>l' w' r. encode_row_u column_count row (l, w) = (l', w') \<and>
           stepped (cells_in_place_u (cells column_count row) (l, w)) l w xs l' w' r \<and>
           row_count l' = row_count l + 1 \<and> row_slots column_count row r \<and>
           (cells_in_place_u (cells column_count row) (l, w) \<longrightarrow> whole column_count row \<longrightarrow>
              (\<forall>st. driver_term (heap w') r st = Some (row_term column_count row # st)))"
proof -
  let ?cs = "cells column_count row"
  let ?close = "[Tag ERL_DRV_TUPLE, Num (of_int column_count)]"
  have fm: "fold (\<lambda>i. encode_column_u (column row i)) [0..<nat column_count] (l, w)
            = fold encode_column_u ?cs (l, w)"
    by (simp add: cells_def fold_map comp_def)
  obtain l1 w1 v1 where e1: "fold encode_column_u ?cs (l, w) = (l1, w1)"
    and s1: "stepped (cells_in_place_u ?cs (l, w)) l w xs l1 w1 v1" and r1: "row_count l1 = row_count l"
    and n1: "length v1 = sum_list (map slot_width ?cs)"
    and d1: "cells_in_place_u ?cs (l, w) \<longrightarrow> list_all fits_int ?cs \<longrightarrow>
              (\<forall>st. driver_term (heap w1) v1 st = Some (rev (concat (map cell_terms ?cs)) @ st))"
    using encode_cells_step[OF assms, of ?cs] by blast
  obtain fs1 bs1 where i1: "inv l1 w1 (xs @ v1) fs1 bs1" using stepped_inv[OF s1] by blast
  have h1: "holds (dataset l1) w1 (xs @ v1)" "term_count l1 = int (length (xs @ v1))"
    using i1 by (auto simp: inv_def)
  have pl: "list_all plain ?close" by simp
  obtain l2 w2 where q: "push (xs @ v1) ?close (l1, w1) = (l2, w2)"
    and s2: "stepped True l1 w1 (xs @ v1) l2 w2 ?close" and r2: "row_count l2 = row_count l1"
    using push_step[OF i1 pl] by blast
  have e: "encode_row_u column_count row (l, w) = (l2\<lparr>row_count := row_count l1 + 1\<rparr>, w2)"
    unfolding encode_row_u_def fm e1 prod.case row_close_push[OF h1] q by simp
  have st: "stepped (cells_in_place_u ?cs (l, w)) (l) w xs (l2\<lparr>row_count := row_count l1 + 1\<rparr>) w2 (v1 @ ?close)"
    using stepped_trans[OF s1 s2] by simp
  have rs: "row_slots column_count row (v1 @ ?close)"
    unfolding row_slots_def using n1 by blast
  have dec: "driver_term (heap w2) (v1 @ ?close) st = Some (row_term column_count row # st)"
    if nr: "cells_in_place_u ?cs (l, w)" and ok: "whole column_count row" for st
  proof -
    have fits: "list_all fits_int ?cs" and nn: "list_all (\<lambda>c. c \<noteq> SQLITE_NULL) ?cs"
      and cc: "0 \<le> column_count" "column_count < 2 ^ 31"
      using ok by (auto simp: whole_def list_all_iff)
    have "length (concat (map cell_terms ?cs)) = length ?cs"
      using nn by (rule length_cell_terms)
    then have len: "length (concat (map cell_terms ?cs)) = nat column_count"
      by (simp add: cells_def)
    have un: "unat (of_int column_count :: 64 word) = nat column_count"
      using unat_of_int_small[of "nat column_count"] cc by simp
    have "driver_term (heap w1) v1 st = Some (rev (concat (map cell_terms ?cs)) @ st)"
      using d1 nr fits by simp
    then have "driver_term (heap w2) v1 st = Some (rev (concat (map cell_terms ?cs)) @ st)"
      using driver_term_mono[OF stepped_extends[OF s2]] by blast
    then have "driver_term (heap w2) (v1 @ ?close) st
               = driver_term (heap w2) ?close (rev (concat (map cell_terms ?cs)) @ st)"
      by (rule driver_term_append)
    also have "\<dots> = Some (row_term column_count row # st)"
      using len un by (simp add: row_term_def)
    finally show ?thesis .
  qed
  show ?thesis
    using e st r1 rs dec
    by (intro exI[of _ "l2\<lparr>row_count := row_count l1 + 1\<rparr>"] exI[of _ w2] exI[of _ "v1 @ ?close"]) simp
qed

lemma buffer_inv: "inv l w xs fs bs \<Longrightarrow> buffer (l, w) = xs"
  by (auto simp: inv_def holds_def buffer_def split: option.splits)

lemma inv_fprintf [simp]: "inv l (fprintf_stderr x w) xs fs bs = inv l w xs fs bs"
  by (simp add: inv_def fprintf_stderr_def holds_def fresh_def split: option.splits)

lemma frame_fprintf: "frame w (fprintf_stderr x w)"
  by (simp add: frame_def fprintf_stderr_def)

lemma stepped_frame: "stepped q l w xs l' w' vals \<Longrightarrow> frame w w'"
  by (simp add: stepped_def)

lemma rows_end_push:
  assumes "holds (dataset l) w xs" "term_count l = int (length xs)"
  shows "rows_end_u (l, w)
         = push xs [Tag ERL_DRV_NIL, Tag ERL_DRV_LIST, Num (of_int (row_count l + 1))] (l, w)"
proof -
  let ?vs = "[Tag ERL_DRV_NIL, Tag ERL_DRV_LIST, Num (of_int (row_count l + 1))]"
  obtain d w1 where r: "realloc (dataset l) (length xs + length ?vs) w = (d, w1)"
    by (cases "realloc (dataset l) (length xs + length ?vs) w")
  have n: "nat (term_count l + 3) = length xs + length ?vs" using assms(2) by simp
  have r': "realloc (dataset l) (nat (term_count l + 3)) w = (d, w1)"
    unfolding n by (rule r)
  show ?thesis
    unfolding push_idiom[OF assms(1) r] rows_end_u_def prod.case Let_def r'
    using assms(2) by (simp add: ac_simps)
qed

lemma rows_pair_push:
  assumes "holds (dataset l) w xs" "term_count l = int (length xs)"
  shows "rows_pair_u (l, w) = push xs [Tag ERL_DRV_TUPLE, Num 2] (l, w)"
proof -
  let ?vs = "[Tag ERL_DRV_TUPLE, Num 2]"
  obtain d w1 where r: "realloc (dataset l) (length xs + length ?vs) w = (d, w1)"
    by (cases "realloc (dataset l) (length xs + length ?vs) w")
  have n: "nat (term_count l + 2) = length xs + length ?vs" using assms(2) by simp
  have r': "realloc (dataset l) (nat (term_count l + 2)) w = (d, w1)"
    unfolding n by (rule r)
  show ?thesis
    unfolding push_idiom[OF assms(1) r] rows_pair_u_def prod.case Let_def r'
    using assms(2) by (simp add: ac_simps)
qed

lemma body_list_push:
  assumes "holds (dataset l) w xs" "term_count l = int (length xs)"
  shows "body_list_u (l, w) = push xs [Tag ERL_DRV_NIL, Tag ERL_DRV_LIST, Num 3] (l, w)"
proof -
  let ?vs = "[Tag ERL_DRV_NIL, Tag ERL_DRV_LIST, Num 3]"
  obtain d w1 where r: "realloc (dataset l) (length xs + length ?vs) w = (d, w1)"
    by (cases "realloc (dataset l) (length xs + length ?vs) w")
  have n: "nat (term_count l + 3) = length xs + length ?vs" using assms(2) by simp
  have r': "realloc (dataset l) (nat (term_count l + 3)) w = (d, w1)"
    unfolding n by (rule r)
  show ?thesis
    unfolding push_idiom[OF assms(1) r] body_list_u_def prod.case Let_def r'
    using assms(2) by (simp add: ac_simps)
qed

lemma insert_id_push:
  assumes "holds (dataset l) w xs" "term_count l = int (length xs)"
  shows "insert_id_u statement (l, w)
         = push xs [Tag ERL_DRV_ATOM, Atom ''id'', Tag ERL_DRV_INT,
                    Num (sqlite3_last_insert_rowid statement), Tag ERL_DRV_TUPLE, Num 2] (l, w)"
proof -
  let ?vs = "[Tag ERL_DRV_ATOM, Atom ''id'', Tag ERL_DRV_INT,
              Num (sqlite3_last_insert_rowid statement), Tag ERL_DRV_TUPLE, Num 2]"
  obtain d w1 where r: "realloc (dataset l) (length xs + length ?vs) w = (d, w1)"
    by (cases "realloc (dataset l) (length xs + length ?vs) w")
  have n: "nat (term_count l + 6) = length xs + length ?vs" using assms(2) by simp
  have r': "realloc (dataset l) (nat (term_count l + 6)) w = (d, w1)"
    unfolding n by (rule r)
  show ?thesis
    unfolding push_idiom[OF assms(1) r] insert_id_u_def prod.case Let_def r'
    using assms(2) by (simp add: ac_simps)
qed

lemma status_ok_push:
  assumes "holds (dataset l) w xs" "term_count l = int (length xs)"
  shows "status_ok_u next_row (l, w)
         = push xs [Tag ERL_DRV_ATOM, Atom ''ok'', Tag ERL_DRV_INT,
                    Num (of_int next_row), Tag ERL_DRV_TUPLE, Num 2] (l, w)"
proof -
  let ?vs = "[Tag ERL_DRV_ATOM, Atom ''ok'', Tag ERL_DRV_INT,
              Num (of_int next_row), Tag ERL_DRV_TUPLE, Num 2]"
  obtain d w1 where r: "realloc (dataset l) (length xs + length ?vs) w = (d, w1)"
    by (cases "realloc (dataset l) (length xs + length ?vs) w")
  have n: "nat (term_count l + 6) = length xs + length ?vs" using assms(2) by simp
  have r': "realloc (dataset l) (nat (term_count l + 6)) w = (d, w1)"
    unfolding n by (rule r)
  show ?thesis
    unfolding push_idiom[OF assms(1) r] status_ok_u_def prod.case Let_def r'
    using assms(2) by (simp add: ac_simps)
qed

lemma stepping_step:
  assumes "inv l w xs fs bs"
  shows "\<exists>l' w' rs. stepping_u cc rws (l, w) = (l', w') \<and>
           stepped (rows_in_place_u cc rws (l, w)) l w xs l' w' (concat rs) \<and>
           row_count l' = row_count l + int (length rws) \<and> list_all2 (row_slots cc) rws rs \<and>
           (rows_in_place_u cc rws (l, w) \<longrightarrow> list_all (whole cc) rws \<longrightarrow>
              (\<forall>st. driver_term (heap w') (concat rs) st = Some (rev (map (row_term cc) rws) @ st)))"
  using assms
proof (induction rws arbitrary: l w xs fs bs)
  case Nil
  have "stepped True l w xs l w (concat [])"
    using Nil by (auto simp: stepped_def frame_refl extends_refl)
  then show ?case by (intro exI[of _ l] exI[of _ w] exI[of _ "[]"]) simp
next
  case (Cons r rws)
  obtain l1 w1 v1 where e1: "encode_row_u cc r (l, w) = (l1, w1)"
    and s1: "stepped (cells_in_place_u (cells cc r) (l, w)) l w xs l1 w1 v1"
    and r1: "row_count l1 = row_count l + 1"
    and n1: "row_slots cc r v1"
    and d1: "cells_in_place_u (cells cc r) (l, w) \<longrightarrow> whole cc r \<longrightarrow>
              (\<forall>st. driver_term (heap w1) v1 st = Some (row_term cc r # st))"
    using encode_row_step[OF Cons.prems, of cc r] by blast
  obtain fs1 bs1 where i1: "inv l1 w1 (xs @ v1) fs1 bs1" using stepped_inv[OF s1] by blast
  obtain l2 w2 rs where e2: "stepping_u cc rws (l1, w1) = (l2, w2)"
    and s2: "stepped (rows_in_place_u cc rws (l1, w1)) l1 w1 (xs @ v1) l2 w2 (concat rs)"
    and r2: "row_count l2 = row_count l1 + int (length rws)"
    and n2: "list_all2 (row_slots cc) rws rs"
    and d2: "rows_in_place_u cc rws (l1, w1) \<longrightarrow> list_all (whole cc) rws \<longrightarrow>
              (\<forall>st. driver_term (heap w2) (concat rs) st = Some (rev (map (row_term cc) rws) @ st))"
    using Cons.IH[OF i1] by blast
  have q: "rows_in_place_u cc (r # rws) (l, w)
           = (cells_in_place_u (cells cc r) (l, w) \<and> rows_in_place_u cc rws (l1, w1))"
    using e1 by simp
  have dec: "driver_term (heap w2) (concat (v1 # rs)) st
             = Some (rev (map (row_term cc) (r # rws)) @ st)"
    if nr: "rows_in_place_u cc (r # rws) (l, w)" and ok: "list_all (whole cc) (r # rws)" for st
  proof -
    have nr1: "rows_in_place_u cc rws (l1, w1)" and nr0: "cells_in_place_u (cells cc r) (l, w)"
      using nr q by simp_all
    have "driver_term (heap w1) v1 st = Some (row_term cc r # st)" using d1 nr0 ok by simp
    then have "driver_term (heap w2) v1 st = Some (row_term cc r # st)"
      using driver_term_mono[OF stepped_extends[OF s2 nr1]] by blast
    then have "driver_term (heap w2) (v1 @ concat rs) st
               = driver_term (heap w2) (concat rs) (row_term cc r # st)"
      by (rule driver_term_append)
    also have "\<dots> = Some (rev (map (row_term cc) rws) @ row_term cc r # st)"
      using d2 nr1 ok by simp
    finally show ?thesis by simp
  qed
  have st: "stepped (rows_in_place_u cc (r # rws) (l, w)) l w xs l2 w2 (concat (v1 # rs))"
    using stepped_trans[OF s1 s2] unfolding q by simp
  show ?case
    using e1 e2 st r1 r2 n1 n2 dec
    by (intro exI[of _ l2] exI[of _ w2] exI[of _ "v1 # rs"]) simp
qed

lemma push_pools:
  assumes "push xs vs (l, w) = (l', w')"
  shows "row_count l' = row_count l \<and> floats l' = floats l \<and> float_count l' = float_count l \<and>
         binaries l' = binaries l \<and> binaries_count l' = binaries_count l"
  using assms by (auto simp: push_def split: prod.splits)

lemma plain_column_slots [simp]: "list_all plain (column_slots statement n)"
  by (simp add: column_slots_def list_all_iff)

lemma plain_header_slots [simp]: "list_all plain (header_slots statement n)"
  by (simp add: header_slots_def)

lemma encode_begin_step:
  assumes "fresh w" "\<not> crashed w" "ac_term_count ac = 0"
  shows "\<exists>l w'. encode_begin_u ac w = (l, w') \<and>
           (\<exists>fs bs. inv l w' (begin_slots (ac_statement ac) w) fs bs) \<and>
           frame w w' \<and> row_count l = ac_row_count ac \<and> floats l = None \<and>
           extends (heap w) (heap w')"
proof -
  let ?st = "ac_statement ac"
  let ?cc = "sqlite3_column_count ?st"
  let ?l0 = "\<lparr>dataset = None, term_count = 0, row_count = ac_row_count ac, floats = None,
              float_count = 0, binaries = None, binaries_count = 0\<rparr>"
  let ?p = "[Tag ERL_DRV_PORT, Port (port (drv w))]"
  have i0: "inv ?l0 w [] [] []" using assms by (simp add: inv_def holds_def)
  have h0: "holds (dataset ?l0) w []" "term_count ?l0 = int (length ([]::mword list))"
    by (simp_all add: holds_def)
  have pp: "list_all plain ?p" by simp
  obtain l1 w1 where q1: "push [] ?p (?l0, w) = (l1, w1)" and s1: "stepped True ?l0 w [] l1 w1 ?p"
    and r1: "row_count l1 = row_count ?l0"
    using push_step[OF i0 pp] by blast
  have f1: "floats l1 = None" using push_pools[OF q1] by simp
  have e1: "port_header_u (?l0, w) = (l1, w1)" using port_header_push[OF h0] q1 by simp
  obtain fs1 bs1 where i1: "inv l1 w1 ([] @ ?p) fs1 bs1" using stepped_inv[OF s1] by blast
  have ccn: "?cc = int (nat ?cc)"
    by (simp add: sqlite3_column_count_def split: option.splits)
  show ?thesis
  proof (cases "?cc > 0")
    case True
    let ?h = "header_slots ?st (nat ?cc)"
    have h1: "holds (dataset l1) w1 ([] @ ?p)" "term_count l1 = int (length ([] @ ?p))"
      using i1 by (auto simp: inv_def)
    obtain l2 w2 where q2: "push ([] @ ?p) ?h (l1, w1) = (l2, w2)"
      and s2: "stepped True l1 w1 ([] @ ?p) l2 w2 ?h" and r2: "row_count l2 = row_count l1"
      using push_step[OF i1 plain_header_slots] by blast
    have f2: "floats l2 = None" using push_pools[OF q2] f1 by simp
    have e2: "columns_header_u ?st ?cc (l1, w1) = (l2, w2)"
      using columns_header_push[OF h1, of ?st "nat ?cc"] q2 ccn by simp
    have s: "stepped True ?l0 w [] l2 w2 (?p @ ?h)" using stepped_trans[OF s1 s2] by simp
    obtain fs2 bs2 where i2: "inv l2 w2 ([] @ ?p @ ?h) fs2 bs2" using stepped_inv[OF s] by blast
    have eb: "encode_begin_u ac w = (l2, fprintf_stderr (Exec_line (sqlite3_sql ?st)) w2)"
      using assms(3) e1 e2 True by (simp add: encode_begin_u_def Let_def)
    have fr: "frame w (fprintf_stderr (Exec_line (sqlite3_sql ?st)) w2)"
      using frame_trans[OF stepped_frame[OF s] frame_fprintf] .
    have ex: "extends (heap w) (heap (fprintf_stderr (Exec_line (sqlite3_sql ?st)) w2))"
      using stepped_extends[OF s] by (simp add: fprintf_stderr_def)
    show ?thesis
      using eb i2 fr r1 r2 ex True f2
      by (intro exI[of _ l2] exI[of _ "fprintf_stderr (Exec_line (sqlite3_sql ?st)) w2"])
         (auto simp: begin_slots_def)
  next
    case False
    have eb: "encode_begin_u ac w = (l1, fprintf_stderr (Exec_line (sqlite3_sql ?st)) w1)"
      using assms(3) e1 False by (simp add: encode_begin_u_def Let_def)
    have fr: "frame w (fprintf_stderr (Exec_line (sqlite3_sql ?st)) w1)"
      using frame_trans[OF stepped_frame[OF s1] frame_fprintf] .
    have ex: "extends (heap w) (heap (fprintf_stderr (Exec_line (sqlite3_sql ?st)) w1))"
      using stepped_extends[OF s1] by (simp add: fprintf_stderr_def)
    show ?thesis
      using eb i1 fr r1 ex False f1
      by (intro exI[of _ l1] exI[of _ "fprintf_stderr (Exec_line (sqlite3_sql ?st)) w1"])
         (auto simp: begin_slots_def)
  qed
qed

lemma fresh_start_world [simp]: "fresh (start_world d r)"
  by (simp add: fresh_def start_world_def)

lemma crashed_start_world [simp]: "\<not> crashed (start_world d r)"
  by (simp add: start_world_def)

lemma encode_rows_step:
  assumes "fresh w" "\<not> crashed w" "ac_term_count ac = 0"
  shows "\<exists>l w1 rs.
           stepping_u cc rws (encode_begin_u ac w) = (l, w1) \<and>
           (\<exists>fs bs. inv l w1 (begin_slots (ac_statement ac) w @ concat rs) fs bs) \<and>
           frame w w1 \<and> row_count l = ac_row_count ac + int (length rws) \<and>
           list_all2 (row_slots cc) rws rs \<and>
           (rows_in_place_u cc rws (encode_begin_u ac w) \<longrightarrow> extends (heap w) (heap w1)) \<and>
           (rows_in_place_u cc rws (encode_begin_u ac w) \<longrightarrow> list_all (whole cc) rws \<longrightarrow>
              (\<forall>st. driver_term (heap w1) (concat rs) st
                    = Some (rev (map (row_term cc) rws) @ st)))"
proof -
  obtain l0 w0 fs0 bs0 where eb: "encode_begin_u ac w = (l0, w0)"
    and i0: "inv l0 w0 (begin_slots (ac_statement ac) w) fs0 bs0"
    and f0: "frame w w0" and r0: "row_count l0 = ac_row_count ac"
    and x0: "extends (heap w) (heap w0)"
    using encode_begin_step[OF assms] by blast
  obtain l1 w1 rs where e1: "stepping_u cc rws (l0, w0) = (l1, w1)"
    and s1: "stepped (rows_in_place_u cc rws (l0, w0)) l0 w0 (begin_slots (ac_statement ac) w) l1 w1 (concat rs)"
    and r1: "row_count l1 = row_count l0 + int (length rws)"
    and n1: "list_all2 (row_slots cc) rws rs"
    and d1: "rows_in_place_u cc rws (l0, w0) \<longrightarrow> list_all (whole cc) rws \<longrightarrow>
              (\<forall>st. driver_term (heap w1) (concat rs) st = Some (rev (map (row_term cc) rws) @ st))"
    using stepping_step[OF i0, of cc rws] by blast
  have x1: "extends (heap w) (heap w1)" if "rows_in_place_u cc rws (l0, w0)"
    using x0 stepped_extends[OF s1 that] extends_trans by blast
  show ?thesis
    unfolding eb
    using e1 stepped_inv[OF s1] frame_trans[OF f0 stepped_frame[OF s1]] r0 r1 n1 d1 x1
    by (intro exI[of _ l1] exI[of _ w1] exI[of _ rs]) auto
qed

lemma frame_kept: "frame w w' \<Longrightarrow> kept w w'"
  by (simp add: frame_def kept_def)

lemma kept_trans: "kept w w1 \<Longrightarrow> kept w1 w2 \<Longrightarrow> kept w w2"
  unfolding kept_def by auto

lemma kept_after_stepping: "kept w (after_stepping statement w)"
  by (simp add: kept_def after_stepping_def split: option.splits)

lemma kept_fprintf: "kept w (fprintf_stderr x w)"
  by (simp add: kept_def fprintf_stderr_def)

lemma inv_after_stepping [simp]: "inv l (after_stepping statement w) xs fs bs = inv l w xs fs bs"
  by (simp add: inv_def after_stepping_def holds_def fresh_def split: option.splits)

lemma heap_after_stepping [simp]: "heap (after_stepping statement w) = heap w"
  by (simp add: after_stepping_def split: option.splits)

lemma relocates_after_stepping [simp]: "relocates (after_stepping statement w) = relocates w"
  by (simp add: after_stepping_def split: option.splits)

lemma heap_fprintf [simp]: "heap (fprintf_stderr x w) = heap w"
  by (simp add: fprintf_stderr_def)

lemma push_run:
  assumes "inv l w xs fs bs" "list_all plain vs"
  shows "\<exists>l' w'. push xs vs (l, w) = (l', w') \<and> inv l' w' (xs @ vs) fs bs \<and> frame w w' \<and>
           extends (heap w) (heap w') \<and>
           row_count l' = row_count l \<and> floats l' = floats l \<and> binaries l' = binaries l \<and>
           binaries_count l' = binaries_count l"
proof -
  obtain da w' where
    q: "push xs vs (l, w) = (l\<lparr>dataset := Some da, term_count := term_count l + int (length vs)\<rparr>, w')"
    and i2: "inv (l\<lparr>dataset := Some da, term_count := term_count l + int (length vs)\<rparr>) w' (xs @ vs) fs bs"
    and fr: "frame w w'"
    and ex: "extends (heap w) (heap w')"
    by (rule push_inv[OF assms]) blast
  show ?thesis using q i2 fr ex by auto
qed

lemma envelope_run:
  assumes "inv l w xs fs bs" "0 < sqlite3_column_count statement \<or> sqlite3_sql statement \<noteq> None"
  shows "\<exists>l' w'. close_reply_u (envelope_u statement (sqlite3_column_count statement) SQLITE_DONE (l, w))
                    = (l', w') \<and>
           inv l' w' (xs @ reply_tail statement (row_count l)) fs bs \<and> frame w w' \<and>
           extends (heap w) (heap w') \<and>
           row_count l' = row_count l \<and> floats l' = floats l \<and> binaries l' = binaries l \<and>
           binaries_count l' = binaries_count l"
proof -
  let ?cc = "sqlite3_column_count statement"
  let ?close = "[Tag ERL_DRV_TUPLE, Num 2]"
  have body: "\<exists>l1 w1 vs. envelope_u statement ?cc SQLITE_DONE (l, w) = (l1, w1) \<and>
            reply_tail statement (row_count l) = vs @ ?close \<and>
            inv l1 w1 (xs @ vs) fs bs \<and> frame w w1 \<and>
           extends (heap w) (heap w1) \<and>
           row_count l1 = row_count l \<and> floats l1 = floats l \<and> binaries l1 = binaries l \<and>
           binaries_count l1 = binaries_count l"
  proof (cases "0 < ?cc")
    case True
    let ?a = "[Tag ERL_DRV_NIL, Tag ERL_DRV_LIST, Num (of_int (row_count l + 1))]"
    let ?b = "[Tag ERL_DRV_TUPLE, Num 2]"
    let ?c = "[Tag ERL_DRV_NIL, Tag ERL_DRV_LIST, Num 3]"
    have h: "holds (dataset l) w xs" "term_count l = int (length xs)"
      using assms(1) by (auto simp: inv_def)
    obtain l1 w1 where q1: "push xs ?a (l, w) = (l1, w1)" and i1: "inv l1 w1 (xs @ ?a) fs bs"
      and f1: "frame w w1" and x1: "extends (heap w) (heap w1)"
      and p1: "row_count l1 = row_count l" "floats l1 = floats l" "binaries l1 = binaries l"
              "binaries_count l1 = binaries_count l"
      using push_run[OF assms(1), of ?a] by auto
    have h1: "holds (dataset l1) w1 (xs @ ?a)" "term_count l1 = int (length (xs @ ?a))"
      using i1 by (auto simp: inv_def)
    obtain l2 w2 where q2: "push (xs @ ?a) ?b (l1, w1) = (l2, w2)"
      and i2: "inv l2 w2 ((xs @ ?a) @ ?b) fs bs"
      and f2: "frame w1 w2" and x2: "extends (heap w1) (heap w2)"
      and p2: "row_count l2 = row_count l1" "floats l2 = floats l1" "binaries l2 = binaries l1"
              "binaries_count l2 = binaries_count l1"
      using push_run[OF i1, of ?b] by auto
    have h2: "holds (dataset l2) w2 ((xs @ ?a) @ ?b)" "term_count l2 = int (length ((xs @ ?a) @ ?b))"
      using i2 by (auto simp: inv_def)
    obtain l3 w3 where q3: "push ((xs @ ?a) @ ?b) ?c (l2, w2) = (l3, w3)"
      and i3: "inv l3 w3 (((xs @ ?a) @ ?b) @ ?c) fs bs"
      and f3: "frame w2 w3" and x3: "extends (heap w2) (heap w3)"
      and p3: "row_count l3 = row_count l2" "floats l3 = floats l2" "binaries l3 = binaries l2"
              "binaries_count l3 = binaries_count l2"
      using push_run[OF i2, of ?c] by auto
    have e: "envelope_u statement ?cc SQLITE_DONE (l, w) = (l3, w3)"
      using True rows_end_push[OF h] q1 rows_pair_push[OF h1] q2 body_list_push[OF h2] q3
      by (simp add: envelope_u_def)
    have x: "extends (heap w) (heap w3)"
      using x1 x2 x3 extends_trans by blast
    have rt: "reply_tail statement (row_count l) = (?a @ ?b @ ?c) @ ?close"
      using True by (simp add: reply_tail_def)
    show ?thesis
      using e rt i3 frame_trans[OF frame_trans[OF f1 f2] f3] x p1 p2 p3
      by (intro exI[of _ l3] exI[of _ w3] exI[of _ "?a @ ?b @ ?c"]) simp
  next
    case False
    then obtain sqltext where tx: "sqlite3_sql statement = Some sqltext" using assms(2) by auto
    have h: "holds (dataset l) w xs" "term_count l = int (length xs)"
      using assms(1) by (auto simp: inv_def)
    show ?thesis
    proof (cases "strcasestr sqltext ''INSERT''")
      case True
      let ?a = "[Tag ERL_DRV_ATOM, Atom ''id'', Tag ERL_DRV_INT,
                 Num (sqlite3_last_insert_rowid statement), Tag ERL_DRV_TUPLE, Num 2]"
      obtain l1 w1 where q1: "push xs ?a (l, w) = (l1, w1)" and i1: "inv l1 w1 (xs @ ?a) fs bs"
        and f1: "frame w w1" and x1: "extends (heap w) (heap w1)"
        and p1: "row_count l1 = row_count l" "floats l1 = floats l" "binaries l1 = binaries l"
                "binaries_count l1 = binaries_count l"
        using push_run[OF assms(1), of ?a] by auto
      have e: "envelope_u statement ?cc SQLITE_DONE (l, w) = (l1, w1)"
        using False tx True insert_id_push[OF h, of statement] q1 by (simp add: envelope_u_def)
      have rt: "reply_tail statement (row_count l) = ?a @ ?close"
        using False tx True by (simp add: reply_tail_def)
      show ?thesis
        using e rt i1 f1 x1 p1 by (intro exI[of _ l1] exI[of _ w1] exI[of _ ?a]) simp
    next
      case nins: False
      let ?a = "[Tag ERL_DRV_ATOM, Atom ''ok'', Tag ERL_DRV_INT,
                 Num (of_int SQLITE_DONE), Tag ERL_DRV_TUPLE, Num 2]"
      obtain l1 w1 where q1: "push xs ?a (l, w) = (l1, w1)" and i1: "inv l1 w1 (xs @ ?a) fs bs"
        and f1: "frame w w1" and x1: "extends (heap w) (heap w1)"
        and p1: "row_count l1 = row_count l" "floats l1 = floats l" "binaries l1 = binaries l"
                "binaries_count l1 = binaries_count l"
        using push_run[OF assms(1), of ?a] by auto
      have e: "envelope_u statement ?cc SQLITE_DONE (l, w) = (l1, w1)"
        using False tx nins status_ok_push[OF h, of SQLITE_DONE] q1 by (simp add: envelope_u_def)
      have rt: "reply_tail statement (row_count l) = ?a @ ?close"
        using False tx nins by (simp add: reply_tail_def)
      show ?thesis
        using e rt i1 f1 x1 p1 by (intro exI[of _ l1] exI[of _ w1] exI[of _ ?a]) simp
    qed
  qed
  then obtain l1 w1 vs where e1: "envelope_u statement ?cc SQLITE_DONE (l, w) = (l1, w1)"
    and rt: "reply_tail statement (row_count l) = vs @ ?close"
    and i1: "inv l1 w1 (xs @ vs) fs bs" and f1: "frame w w1"
    and x1: "extends (heap w) (heap w1)"
    and p1: "row_count l1 = row_count l" "floats l1 = floats l" "binaries l1 = binaries l"
            "binaries_count l1 = binaries_count l"
    by blast
  have h1: "holds (dataset l1) w1 (xs @ vs)" "term_count l1 = int (length (xs @ vs))"
    using i1 by (auto simp: inv_def)
  obtain l2 w2 where q2: "push (xs @ vs) ?close (l1, w1) = (l2, w2)"
    and i2: "inv l2 w2 ((xs @ vs) @ ?close) fs bs"
    and f2: "frame w1 w2" and x2: "extends (heap w1) (heap w2)"
    and p2: "row_count l2 = row_count l1" "floats l2 = floats l1" "binaries l2 = binaries l1"
            "binaries_count l2 = binaries_count l1"
    using push_run[OF i1, of ?close] by auto
  have e: "close_reply_u (envelope_u statement ?cc SQLITE_DONE (l, w)) = (l2, w2)"
    using e1 close_reply_push[OF h1] q2 by simp
  have x: "extends (heap w) (heap w2)"
    using x1 x2 extends_trans by blast
  show ?thesis
    using e i2 rt frame_trans[OF f1 f2] x p1 p2
    by (intro exI[of _ l2] exI[of _ w2]) simp
qed

lemma sql_exec_async_done:
  assumes "fresh w" "\<not> crashed w" "ac_term_count ac = 0"
    and "step_final (ac_statement ac) = SQLITE_DONE"
  shows "\<exists>ac' w' l rs fs bs.
     sql_exec_async_u ac w = (ac', w') \<and>
     list_all2 (row_slots (sqlite3_column_count (ac_statement ac))) (step_rows (ac_statement ac)) rs \<and>
     inv l w' (begin_slots (ac_statement ac) w @ concat rs @
               reply_tail (ac_statement ac)
                 (ac_row_count ac + int (length (step_rows (ac_statement ac))))) fs bs \<and>
     ac_dataset ac' = dataset l \<and> ac_term_count ac' = term_count l \<and> owns ac' l \<and>
     ac_statement ac' = ac_statement ac \<and> ac_self ac' = ac_self ac \<and>
     row_count l = ac_row_count ac + int (length (step_rows (ac_statement ac))) \<and>
     kept w w' \<and>
     (rows_in_place_u (sqlite3_column_count (ac_statement ac)) (step_rows (ac_statement ac))
        (encode_begin_u ac w) \<longrightarrow> extends (heap w) (heap w')) \<and>
     (rows_in_place_u (sqlite3_column_count (ac_statement ac)) (step_rows (ac_statement ac))
        (encode_begin_u ac w) \<longrightarrow>
        list_all (whole (sqlite3_column_count (ac_statement ac))) (step_rows (ac_statement ac)) \<longrightarrow>
        (\<forall>st. driver_term (heap w') (concat rs) st
              = Some (rev (map (row_term (sqlite3_column_count (ac_statement ac)))
                            (step_rows (ac_statement ac))) @ st)))"
proof -
  let ?st = "ac_statement ac"
  let ?cc = "sqlite3_column_count ?st"
  let ?rows = "step_rows ?st"
  let ?q = "rows_in_place_u ?cc ?rows (encode_begin_u ac w)"
  obtain l w1 rs fs bs where e: "stepping_u ?cc ?rows (encode_begin_u ac w) = (l, w1)"
    and i: "inv l w1 (begin_slots ?st w @ concat rs) fs bs"
    and f: "frame w w1" and rc: "row_count l = ac_row_count ac + int (length ?rows)"
    and rs: "list_all2 (row_slots ?cc) ?rows rs"
    and x: "?q \<longrightarrow> extends (heap w) (heap w1)"
    and d: "?q \<longrightarrow> list_all (whole ?cc) ?rows \<longrightarrow>
              (\<forall>st. driver_term (heap w1) (concat rs) st = Some (rev (map (row_term ?cc) ?rows) @ st))"
    using encode_rows_step[OF assms(1,2,3), of ?cc ?rows] by blast
  let ?w2 = "after_stepping ?st w1"
  have i2: "inv l ?w2 (begin_slots ?st w @ concat rs) fs bs" using i by simp
  have sq: "0 < ?cc \<or> sqlite3_sql ?st \<noteq> None"
    using assms(4)
    by (cases ?st) (simp_all add: step_final_def SQLITE_MISUSE_def SQLITE_DONE_def sqlite3_sql_def)
  obtain l' w3 where c: "close_reply_u (envelope_u ?st ?cc SQLITE_DONE (l, ?w2)) = (l', w3)"
    and i3: "inv l' w3 ((begin_slots ?st w @ concat rs) @ reply_tail ?st (row_count l)) fs bs"
    and f3: "frame ?w2 w3"
    and x3: "extends (heap ?w2) (heap w3)"
    and p3: "row_count l' = row_count l" "floats l' = floats l" "binaries l' = binaries l"
            "binaries_count l' = binaries_count l"
    using envelope_run[OF i2 sq] by blast
  let ?w' = "fprintf_stderr (Exec_total (map_option handle ?st) (term_count l') ?cc (row_count l')) w3"
  let ?ac' = "ac\<lparr>ac_row_count := row_count l, ac_floats := floats l,
                 ac_binaries := binaries l, ac_binaries_count := binaries_count l,
                 ac_dataset := dataset l', ac_term_count := term_count l'\<rparr>"
  have run: "sql_exec_async_u ac w = (?ac', ?w')"
    using e c assms(4)
    by (simp add: sql_exec_async_u_def Let_def case_prod_unfold SQLITE_BUSY_def SQLITE_DONE_def)
  have k: "kept w ?w'"
    using kept_trans[OF kept_trans[OF kept_trans[OF frame_kept[OF f] kept_after_stepping]
              frame_kept[OF f3]] kept_fprintf] .
  have x13: "extends (heap w1) (heap w3)" using x3 by simp
  have xx: "extends (heap w) (heap ?w')" if "?q"
    using that x x13 extends_trans[of "heap w" "heap w1" "heap w3"] by simp
  have dd: "driver_term (heap ?w') (concat rs) st = Some (rev (map (row_term ?cc) ?rows) @ st)"
    if "?q" "list_all (whole ?cc) ?rows" for st
  proof -
    have "driver_term (heap w1) (concat rs) st = Some (rev (map (row_term ?cc) ?rows) @ st)"
      using d that by simp
    then show ?thesis using driver_term_mono[OF x13] by simp
  qed
  have i4: "inv l' ?w' (begin_slots ?st w @ concat rs @ reply_tail ?st
               (ac_row_count ac + int (length ?rows))) fs bs"
    using i3 rc by simp
  show ?thesis
    using run rs i4 p3 rc k xx dd
    by (intro exI[of _ ?ac'] exI[of _ ?w'] exI[of _ l'] exI[of _ rs] exI[of _ fs] exI[of _ bs])
       (simp add: owns_def)
qed

subsection \<open>What the VM reads\<close>

lemma handed_inv:
  assumes "inv l w xs fs bs" "ac_dataset ac = dataset l" "ac_term_count ac = term_count l"
  shows "handed (ac, w) = xs"
  using assms by (auto simp: handed_def inv_def holds_def split: option.splits)

lemma prepared_simps [simp]:
  "sql (prepared a p) = sql p" "column_names (prepared a p) = column_names p"
  "rows (prepared a p) = rows p" "final (prepared a p) = final p"
  "step_errmsg (prepared a p) = step_errmsg p"
  "last_insert_rowid (prepared a p) = last_insert_rowid p" "handle (prepared a p) = a"
  by (simp_all add: prepared_def program.defs sqlite3_stmt.defs)

lemma statement_simps [simp]:
  "sqlite3_column_count (Some st) = int (length (column_names st))"
  "step_rows (Some st) = rows st" "step_final (Some st) = final st"
  "sqlite3_sql (Some st) = Some (sql st)"
  "sqlite3_last_insert_rowid (Some st) = last_insert_rowid st"
  by (simp_all add: sqlite3_column_count_def step_rows_def step_final_def sqlite3_sql_def
        sqlite3_last_insert_rowid_def)

lemma column_slots_decode:
  "driver_term h (column_slots statement n) st
   = Some (rev (map (\<lambda>i. EAtom (sqlite3_column_name statement i)) [0..<n]) @ st)"
proof (induction n arbitrary: st)
  case 0
  show ?case by (simp add: column_slots_def)
next
  case (Suc n)
  have cs: "column_slots statement (Suc n)
            = column_slots statement n @ [Tag ERL_DRV_ATOM, Atom (sqlite3_column_name statement n)]"
    by (simp add: column_slots_def)
  show ?case
    unfolding cs using driver_term_append[OF Suc] by simp
qed

lemma build_list:
  "unat k = Suc (length ts) \<Longrightarrow>
   build_term h ERL_DRV_LIST [Num k] (ENil # rev ts @ st) = Some (elist ts # st)"
  by (simp add: elist_def)

lemma build_tuple:
  "unat k = length ts \<Longrightarrow>
   build_term h ERL_DRV_TUPLE [Num k] (rev ts @ st) = Some (ETuple ts # st)"
  by simp

lemma unat_count: "n < 2 ^ 31 \<Longrightarrow> unat (of_int (int n + 1) :: 64 word) = Suc n"
proof -
  assume n: "n < 2 ^ 31"
  have "(of_int (int n + 1) :: 64 word) = of_nat (Suc n)" by simp
  moreover have "unat (of_nat (Suc n) :: 64 word) = Suc n"
    using n unfolding unat_of_nat by simp
  ultimately show ?thesis by (simp only:)
qed

lemma header_decode:
  assumes "n < 2 ^ 31"
  shows "driver_term h (header_slots statement n) st
         = Some (EAtom ''rows'' #
                 ETuple [EAtom ''columns'',
                         elist (map (\<lambda>i. EAtom (sqlite3_column_name statement i)) [0..<n])] # st)"
proof -
  let ?atoms = "map (\<lambda>i. EAtom (sqlite3_column_name statement i)) [0..<n]"
  let ?rest = "[Tag ERL_DRV_NIL, Tag ERL_DRV_LIST, Num (of_int (int n + 1)), Tag ERL_DRV_TUPLE, Num 2,
      Tag ERL_DRV_ATOM, Atom ''rows'']"
  have 1: "driver_term h (header_slots statement n) st
           = driver_term h (column_slots statement n @ ?rest) (EAtom ''columns'' # st)"
    by (simp add: header_slots_def)
  have 2: "\<dots> = driver_term h ?rest (rev ?atoms @ EAtom ''columns'' # st)"
    by (rule driver_term_append) (rule column_slots_decode)
  have bl: "build_term h ERL_DRV_LIST [Num (of_int (int n + 1))] (ENil # rev ?atoms @ EAtom ''columns'' # st)
            = Some (elist ?atoms # EAtom ''columns'' # st)"
    by (rule build_list) (simp only: length_map length_upt diff_zero unat_count[OF assms])
  have 3: "driver_term h ?rest (rev ?atoms @ EAtom ''columns'' # st)
           = Some (EAtom ''rows'' # ETuple [EAtom ''columns'', elist ?atoms] # st)"
    using bl by simp
  show ?thesis using 1 2 3 by simp
qed

lemma decode_rows_reply:
  assumes "0 < sqlite3_column_count statement" "sqlite3_column_count statement < 2 ^ 31"
    and "length ts < 2 ^ 31"
    and "\<forall>st. driver_term h body st = Some (rev ts @ st)"
  shows "decode h (begin_slots statement w @ body @ reply_tail statement (int (length ts)))
         = Some (ETuple [EPort (port (drv w)),
                   elist [ETuple [EAtom ''columns'', elist (column_atoms statement)],
                          ETuple [EAtom ''rows'', elist ts]]])"
proof -
  let ?cc = "sqlite3_column_count statement"
  let ?hd = "header_slots statement (nat ?cc)"
  let ?tl = "reply_tail statement (int (length ts))"
  let ?cols = "ETuple [EAtom ''columns'', elist (column_atoms statement)]"
  have n: "nat ?cc < 2 ^ 31" using assms(1,2) by simp
  have 1: "driver_term h (begin_slots statement w @ body @ ?tl) []
           = driver_term h (?hd @ body @ ?tl) [EPort (port (drv w))]"
    using assms(1) by (simp add: begin_slots_def)
  have 2: "\<dots> = driver_term h (body @ ?tl) [EAtom ''rows'', ?cols, EPort (port (drv w))]"
    by (rule driver_term_append) (simp add: header_decode[OF n] column_atoms_def)
  have 3: "\<dots> = driver_term h ?tl (rev ts @ [EAtom ''rows'', ?cols, EPort (port (drv w))])"
    by (rule driver_term_append) (simp add: assms(4))
  have bl: "build_term h ERL_DRV_LIST [Num (of_int (int (length ts) + 1))]
              (ENil # rev ts @ [EAtom ''rows'', ?cols, EPort (port (drv w))])
            = Some (elist ts # [EAtom ''rows'', ?cols, EPort (port (drv w))])"
    by (rule build_list) (rule unat_count[OF assms(3)])
  have 4: "driver_term h ?tl (rev ts @ [EAtom ''rows'', ?cols, EPort (port (drv w))])
           = Some [ETuple [EPort (port (drv w)), elist [?cols, ETuple [EAtom ''rows'', elist ts]]]]"
    using assms(1) bl by (simp add: reply_tail_def elist_def)
  show ?thesis using 1 2 3 4 by (simp add: decode_def)
qed

lemma sent_free [simp]: "sent (free p w) = sent w"
  by (simp add: free_def split: option.splits)

lemma sent_driver_free_binary [simp]: "sent (driver_free_binary p w) = sent w"
  by (simp add: driver_free_binary_def split: mword.splits)

lemma sent_free_binaries [simp]:
  "sent (fold (\<lambda>i w. driver_free_binary (peek p (int i) w) w) is w) = sent w"
  by (induction "is" arbitrary: w) simp_all

lemma sent_sql_free_async [simp]: "sent (sql_free_async ac w) = sent w"
  by (simp add: sql_free_async_def Let_def sqlite3_finalize_def split: option.splits)

lemma sent_ready_async:
  "sent (ready_async ac w)
   = sent (snd (driver_output_term (port (drv w)) (ac_dataset ac) (ac_term_count ac) w))"
  by (simp add: ready_async_def Let_def case_prod_unfold fprintf_stderr_def)

lemma output_inv:
  assumes "inv l w xs fs bs" "xs \<noteq> []" "ac_dataset ac = dataset l" "ac_term_count ac = term_count l"
  shows "sent (ready_async ac w)
         = sent w @ (case decode (heap w) xs of None \<Rightarrow> [] | Some t \<Rightarrow> [(port (drv w), t)])"
proof -
  from assms(1,2) obtain d where d: "dataset l = Some d" "heap w d = Some (Array xs)"
    and n: "term_count l = int (length xs)"
    by (cases "dataset l") (auto simp: inv_def holds_def)
  show ?thesis
    unfolding sent_ready_async
    using d n assms(3,4) by (simp add: driver_output_term_def split: option.splits)
qed

lemma dispatched_facts:
  "fresh w \<Longrightarrow> fresh (dispatched w)" "crashed (dispatched w) = crashed w"
  "sent (dispatched w) = sent w" "drv (dispatched w) = drv w"
  "relocates (dispatched w) = relocates w"
  by (auto simp: dispatched_def alloc_def fresh_def)

lemma cells_whole_row: "length row = nat cc \<Longrightarrow> cells cc row = row"
  by (auto simp: cells_def column_def intro!: nth_equalityI)

lemma column_atoms_Some:
  "column_atoms (Some st) = map EAtom (column_names st)"
proof -
  have "map (\<lambda>i. EAtom (sqlite3_column_name (Some st) i)) [0..<length (column_names st)]
        = map (\<lambda>i. EAtom (column_names st ! i)) [0..<length (column_names st)]"
    by (simp add: sqlite3_column_name_def)
  also have "\<dots> = map EAtom (map (\<lambda>i. column_names st ! i) [0..<length (column_names st)])"
    by simp
  also have "\<dots> = map EAtom (column_names st)" by (simp only: map_nth)
  finally show ?thesis by (simp add: column_atoms_def)
qed

lemma demo_world_simps [simp]:
  "drv (start_world d r) = d" "sent (start_world d r) = []" "relocates (start_world d r) = r"
  "brk (start_world d r) = 0" "heap (start_world d r) = Map.empty"
  "port (demo_drv c) = 7" "db (demo_drv c) = c"
  by (simp_all add: start_world_def demo_drv_def)

lemma strcasestr_insert: "strcasestr ''insert into t values (1)'' ''INSERT''"
  by code_simp

lemma strcasestr_create: "\<not> strcasestr ''CREATE TABLE t (a)'' ''INSERT''"
  by code_simp

lemma decode_status_reply:
  assumes "sqlite3_column_count statement = 0" "sqlite3_sql statement = Some sqltext"
  shows "decode h (begin_slots statement w @ reply_tail statement n)
         = Some (ETuple [EPort (port (drv w)),
                   (if strcasestr sqltext ''INSERT''
                    then ETuple [EAtom ''id'', EInt (sint (sqlite3_last_insert_rowid statement))]
                    else ETuple [EAtom ''ok'', EInt SQLITE_DONE])])"
  using assms by (simp add: decode_def begin_slots_def reply_tail_def SQLITE_DONE_def)

lemma return_error_run:
  "return_error error w =
     (Some (brk w), 7,
      w\<lparr>heap := (heap w)(brk w \<mapsto> Array (error_slots error)), brk := Suc (brk w)\<rparr>)"
proof -
  have r: "replicate 7 (Num 0) = [Num 0, Num 0, Num 0, Num 0, Num 0, Num 0, Num 0]"
    by (simp add: eval_nat_numeral)
  have p: "\<And>a i v xs (u::world). heap u a = Some (Array xs) \<Longrightarrow> 0 \<le> i \<Longrightarrow> i < int (length xs) \<Longrightarrow>
        poke (Some a) i v u = u\<lparr>heap := (heap u)(a \<mapsto> Array (xs[nat i := v]))\<rparr>"
    by (simp add: poke_def)
  show ?thesis
    unfolding return_error_def calloc_def alloc_def r Let_def prod.case error_slots_def
    by (simp add: p)
qed

lemma strlen_c_string: "c_string s \<Longrightarrow> strlen s = length s"
  by (simp add: c_string_def strlen_def list_all_iff takeWhile_eq_all_conv[THEN iffD2])

lemma unat_strlen: "c_string s \<Longrightarrow> unat (of_nat (strlen s) :: 64 word) = length s"
proof -
  assume c: "c_string s"
  have "length s < 2 ^ 64"
    using c unfolding c_string_def by (simp add: order_less_trans[of _ "2 ^ 31"])
  then show ?thesis
    unfolding strlen_c_string[OF c] unat_of_nat by simp
qed

lemma decode_error:
  assumes "c_string s"
  shows "decode h (error_slots s) = Some (ETuple [EAtom ''error'', estring s])"
  by (simp add: decode_def error_slots_def unat_strlen[OF assms])


lemma estring_Nil: "estring s = ENil \<longleftrightarrow> s = []"
  by (cases s) (simp_all add: estring_def elist_def)


lemma column_int_big: "sqlite3_column_int 4294967297 = 1"
  by (simp add: sqlite3_column_int_def)

subsection \<open>The error exits and the release of the record\<close>

lemma inv_cong:
  "heap w' = heap w \<Longrightarrow> brk w' = brk w \<Longrightarrow> crashed w' = crashed w \<Longrightarrow>
   inv l w' xs fs bs = inv l w xs fs bs"
  by (simp add: inv_def holds_def fresh_def cong: option.case_cong)

lemma inv_alloc:
  assumes "inv l w xs fs bs"
  shows "inv l (w\<lparr>heap := (heap w)(brk w \<mapsto> b), brk := Suc (brk w)\<rparr>) xs fs bs"
proof -
  have lt: "\<And>a blk. heap w a = Some blk \<Longrightarrow> a < brk w"
    using assms by (auto simp: inv_def intro: live_lt)
  have nb: "brk w \<notin> set bs" using assms lt by (fastforce simp: inv_def)
  show ?thesis
    using assms lt nb
    by (auto simp: inv_def holds_def fresh_def split: option.splits)
qed

lemma brk_after_stepping [simp]: "brk (after_stepping statement w) = brk w"
  by (simp add: after_stepping_def split: option.splits)

lemma sql_exec_async_failed:
  assumes "fresh w" "\<not> crashed w" "ac_term_count ac = 0"
    and "step_final (ac_statement ac) \<noteq> SQLITE_DONE"
  shows "\<exists>l w1 rs fs bs.
     inv l w1 (begin_slots (ac_statement ac) w @ concat rs) fs bs \<and> frame w w1 \<and>
     list_all2 (row_slots (sqlite3_column_count (ac_statement ac))) (step_rows (ac_statement ac)) rs \<and>
     sql_exec_async_u ac w =
       (ac\<lparr>ac_row_count := row_count l, ac_floats := floats l, ac_binaries := binaries l,
           ac_binaries_count := binaries_count l, ac_dataset := Some (brk w1), ac_term_count := 7\<rparr>,
        (after_stepping (ac_statement ac) w1)
          \<lparr>heap := (heap w1)(brk w1 \<mapsto> Array (error_slots (failure_message (ac_statement ac) w1))),
           brk := Suc (brk w1)\<rparr>)"
proof -
  let ?st = "ac_statement ac"
  let ?cc = "sqlite3_column_count ?st"
  let ?rows = "step_rows ?st"
  obtain l w1 rs fs bs where e: "stepping_u ?cc ?rows (encode_begin_u ac w) = (l, w1)"
    and i: "inv l w1 (begin_slots ?st w @ concat rs) fs bs"
    and f: "frame w w1" and rs: "list_all2 (row_slots ?cc) ?rows rs"
    using encode_rows_step[OF assms(1,2,3), of ?cc ?rows] by blast
  have run: "sql_exec_async_u ac w =
       (ac\<lparr>ac_row_count := row_count l, ac_floats := floats l, ac_binaries := binaries l,
           ac_binaries_count := binaries_count l, ac_dataset := Some (brk w1), ac_term_count := 7\<rparr>,
        (after_stepping ?st w1)
          \<lparr>heap := (heap w1)(brk w1 \<mapsto> Array (error_slots (failure_message ?st w1))),
           brk := Suc (brk w1)\<rparr>)"
    using e assms(4)
    by (simp add: sql_exec_async_u_def Let_def case_prod_unfold return_error_run failure_message_def)
  show ?thesis using i f rs run by blast
qed

lemma free_opt:
  assumes "p = None \<or> (\<exists>a b. p = Some a \<and> heap w a = Some b)"
  shows "free p w = w\<lparr>heap := heap w |` (- set (option_list p)),
                      released := released w @ option_list p\<rparr>"
proof (cases p)
  case None
  then show ?thesis by (simp add: free_def option_list_def restrict_map_def)
next
  case (Some a)
  then obtain b where b: "heap w a = Some b" using assms by auto
  show ?thesis
    using Some b by (simp add: free_def option_list_def restrict_complement_singleton_eq)
qed

lemma free_binaries:
  assumes "heap w ba = Some (Array (map BinaryPtr bs))" "distinct bs"
    and "\<forall>b\<in>set bs. \<exists>bytes. heap w b = Some (Binary bytes)" "n \<le> length bs"
  shows "fold (\<lambda>i w. driver_free_binary (peek (Some ba) (int i) w) w) [0..<n] w
         = w\<lparr>heap := heap w |` (- set (take n bs)), released := released w @ take n bs\<rparr>"
  using assms(4)
proof (induction n)
  case 0
  show ?case by simp
next
  case (Suc n)
  let ?wn = "w\<lparr>heap := heap w |` (- set (take n bs)), released := released w @ take n bs\<rparr>"
  have n: "n < length bs" using Suc.prems by simp
  have ih: "fold (\<lambda>i w. driver_free_binary (peek (Some ba) (int i) w) w) [0..<n] w = ?wn"
    using Suc.IH n by simp
  have nb: "ba \<notin> set bs" using assms(1,3) by auto
  then have "ba \<notin> set (take n bs)" by (meson in_set_takeD)
  then have pk: "peek (Some ba) (int n) ?wn = BinaryPtr (bs ! n)"
    using assms(1) n by (simp add: peek_def)
  have notin: "bs ! n \<notin> set (take n bs)"
    using assms(2) n by (auto simp: in_set_conv_nth distinct_conv_nth)
  obtain bytes where bt: "heap w (bs ! n) = Some (Binary bytes)"
    using assms(3) nth_mem[OF n] by blast
  have tk: "take (Suc n) bs = take n bs @ [bs ! n]" using n by (simp add: take_Suc_conv_app_nth)
  have hp: "(heap w |` (- set (take n bs)))(bs ! n := None) = heap w |` (- set (take (Suc n) bs))"
    unfolding tk by (rule ext) (auto simp: restrict_map_def)
  have "driver_free_binary (BinaryPtr (bs ! n)) ?wn
        = w\<lparr>heap := heap w |` (- set (take (Suc n) bs)),
             released := released w @ take (Suc n) bs\<rparr>"
    using notin bt hp by (simp add: driver_free_binary_def free_def tk)
  then show ?case
    using ih pk by simp
qed

lemma without_Nil [simp]: "without [] w = w"
  by (simp add: without_def restrict_map_def)

lemma without_without: "without G (without F w) = without (F @ G) w"
proof -
  have "- set F \<inter> - set G = - (set F \<union> set G)" by auto
  then show ?thesis by (simp add: without_def)
qed

lemma heap_without: "heap (without F w) a = (if a \<in> set F then None else heap w a)"
  by (simp add: without_def restrict_map_def)

lemma free_without:
  assumes "p = None \<or> (\<exists>a b. p = Some a \<and> heap w a = Some b \<and> a \<notin> set F)"
  shows "free p (without F w) = without (F @ option_list p) w"
proof -
  have "p = None \<or> (\<exists>a b. p = Some a \<and> heap (without F w) a = Some b)"
    using assms by (auto simp: heap_without)
  then have "free p (without F w) = without (option_list p) (without F w)"
    unfolding without_def[of "option_list p"] by (rule free_opt)
  then show ?thesis by (simp add: without_without)
qed

lemma free_binaries_without:
  assumes "holds p w (map BinaryPtr bs)" "distinct bs"
    and "\<forall>b\<in>set bs. \<exists>bytes. heap w b = Some (Binary bytes)"
    and "\<forall>a. p = Some a \<longrightarrow> a \<notin> set F" "set bs \<inter> set F = {}"
  shows "fold (\<lambda>i w. driver_free_binary (peek p (int i) w) w) [0..<length bs] (without F w)
         = without (F @ bs) w"
proof (cases p)
  case None
  then have "bs = []" using assms(1) by (simp add: holds_def)
  then show ?thesis by simp
next
  case (Some ba)
  have 1: "heap (without F w) ba = Some (Array (map BinaryPtr bs))"
    using assms(1,4) Some by (simp add: holds_def heap_without)
  have 2: "\<forall>b\<in>set bs. \<exists>bytes. heap (without F w) b = Some (Binary bytes)"
    using assms(3,5) by (auto simp: heap_without)
  have "fold (\<lambda>i w. driver_free_binary (peek (Some ba) (int i) w) w) [0..<length bs] (without F w)
        = without (take (length bs) bs) (without F w)"
    unfolding without_def[of "take (length bs) bs"]
    by (rule free_binaries[OF 1 assms(2) 2]) simp
  then show ?thesis using Some by (simp add: without_without)
qed

lemma finalize_free:
  "(if st \<noteq> None then sqlite3_finalize st w else w) = free (map_option handle st) w"
  by (cases st) (simp_all add: sqlite3_finalize_def free_def)

lemma sql_free_async_run:
  assumes "ac_dataset ac = Some e" "heap w e = Some (Array ys)"
    and "holds (ac_floats ac) w (map Double fs)"
    and "holds (ac_binaries ac) w (map BinaryPtr bs)" "ac_binaries_count ac = int (length bs)"
    and "distinct bs" "\<forall>b\<in>set bs. \<exists>bytes. heap w b = Some (Binary bytes)"
    and "ac_floats ac \<noteq> Some e" "ac_binaries ac \<noteq> Some e"
    and "ac_floats ac \<noteq> None \<longrightarrow> ac_floats ac \<noteq> ac_binaries ac"
    and "\<forall>st. ac_statement ac = Some st \<longrightarrow> heap w (handle st) = Some Statement"
    and "heap w (ac_self ac) = Some Command"
  shows "sql_free_async ac w = without (freed ac bs) (w\<lparr>drv := (drv w)\<lparr>async_handle := 0\<rparr>\<rparr>)"
proof -
  let ?w = "w\<lparr>drv := (drv w)\<lparr>async_handle := 0\<rparr>\<rparr>"
  let ?f = "option_list (ac_floats ac)"
  let ?b = "option_list (ac_binaries ac)"
  let ?h = "option_list (map_option handle (ac_statement ac))"
  have hw: "heap ?w = heap w" by simp
  have nb: "e \<notin> set bs" "ac_self ac \<notin> set bs"
    using assms(2,7,12) by auto
  have hl: "\<forall>a\<in>set ?h. heap w a = Some Statement"
    using assms(11) by (cases "ac_statement ac") (simp_all add: option_list_def)
  have hnb: "\<forall>a\<in>set ?h. a \<notin> set bs" using hl assms(7) by fastforce
  have s1: "free (ac_dataset ac) w = without [e] w"
    using free_without[of "ac_dataset ac" w "[]"] assms(1,2) by (simp add: option_list_def)
  have s2: "(without [e] w)\<lparr>drv := (drv (without [e] w))\<lparr>async_handle := 0\<rparr>\<rparr> = without [e] ?w"
    by (simp add: without_def)
  have s3: "free (ac_floats ac) (without [e] ?w) = without ([e] @ ?f) ?w"
    by (rule free_without) (use assms(3,8) in \<open>cases "ac_floats ac"; auto simp: holds_def\<close>)
  have s4: "fold (\<lambda>i w. driver_free_binary (peek (ac_binaries ac) (int i) w) w)
              [0..<length bs] (without ([e] @ ?f) ?w) = without (([e] @ ?f) @ bs) ?w"
  proof (rule free_binaries_without)
    show "holds (ac_binaries ac) ?w (map BinaryPtr bs)" using assms(4) by (simp add: holds_def split: option.splits)
    show "distinct bs" by (rule assms(6))
    show "\<forall>b\<in>set bs. \<exists>bytes. heap ?w b = Some (Binary bytes)" using assms(7) by simp
    show "\<forall>a. ac_binaries ac = Some a \<longrightarrow> a \<notin> set ([e] @ ?f)"
      using assms(9,10) by (auto simp: option_list_def split: option.splits)
    show "set bs \<inter> set ([e] @ ?f) = {}"
      using nb assms(3,7) by (auto simp: option_list_def holds_def split: option.splits)
  qed
  have s5: "free (ac_binaries ac) (without (([e] @ ?f) @ bs) ?w) = without ((([e] @ ?f) @ bs) @ ?b) ?w"
  proof (rule free_without)
    show "ac_binaries ac = None \<or>
          (\<exists>a b. ac_binaries ac = Some a \<and> heap ?w a = Some b \<and> a \<notin> set (([e] @ ?f) @ bs))"
      using assms(4,7,9,10)
      by (cases "ac_binaries ac") (auto simp: option_list_def holds_def split: option.splits)
  qed
  have s6: "free (map_option handle (ac_statement ac)) (without ((([e] @ ?f) @ bs) @ ?b) ?w)
            = without (((([e] @ ?f) @ bs) @ ?b) @ ?h) ?w"
  proof (rule free_without)
    have "\<forall>a\<in>set ?h. a \<notin> set ((([e] @ ?f) @ bs) @ ?b)"
      using assms(2,3,4) hl hnb by (auto simp: option_list_def holds_def split: option.splits)
    then show "map_option handle (ac_statement ac) = None \<or>
          (\<exists>a b. map_option handle (ac_statement ac) = Some a \<and> heap ?w a = Some b \<and>
                 a \<notin> set ((([e] @ ?f) @ bs) @ ?b))"
      using hl by (cases "ac_statement ac") (auto simp: option_list_def)
  qed
  have ol: "\<And>x::addr. option_list (Some x) = [x]" by (simp add: option_list_def)
  have s7: "free (Some (ac_self ac)) (without (((([e] @ ?f) @ bs) @ ?b) @ ?h) ?w)
            = without ((((([e] @ ?f) @ bs) @ ?b) @ ?h) @ [ac_self ac]) ?w"
  proof -
    have "ac_self ac \<notin> set (((([e] @ ?f) @ bs) @ ?b) @ ?h)"
      using assms(2,3,4,12) nb hl by (auto simp: option_list_def holds_def split: option.splits)
    then have "Some (ac_self ac) = None \<or>
          (\<exists>a b. Some (ac_self ac) = Some a \<and> heap ?w a = Some b \<and>
                 a \<notin> set (((([e] @ ?f) @ bs) @ ?b) @ ?h))"
      using assms(12) by simp
    from free_without[OF this] show ?thesis unfolding ol .
  qed
  have fr: "((((([e] @ ?f) @ bs) @ ?b) @ ?h) @ [ac_self ac]) = freed ac bs"
    using assms(1) by (simp add: freed_def option_list_def)
  have fn: "\<And>p u. (if p \<noteq> None then free p u else u) = free p u"
    by (simp add: free_def)
  show ?thesis
    unfolding sql_free_async_def Let_def fn finalize_free s1 s2 s3 assms(5) nat_int s4 s5 s6 s7 fr ..
qed

lemma c_string_busy: "c_string ''SQLite3 database is busy''"
  by (simp add: c_string_def)

lemma sent_without [simp]: "sent (without F w) = sent w"
  by (simp add: without_def)

lemma crashed_without [simp]: "crashed (without F w) = crashed w"
  by (simp add: without_def)

lemma c_string_demo: "c_string ''database is locked''" "c_string ''UNIQUE constraint failed: t.a''"
  by (simp_all add: c_string_def)

subsection \<open>A float pool that moves\<close>

lemma float_pool_moves:
  assumes "inv l w xs fs bs" "floats l = Some f" "relocates w (reallocs w)"
  shows "heap (snd (float_pool_step_u d (l, w))) f = None"
proof -
  have h: "heap w f = Some (Array (map Double fs))"
    using assms(1,2) by (simp add: inv_def holds_def)
  have "fresh w" using assms(1) by (simp add: inv_def)
  then have ne: "f \<noteq> brk w" using h by (auto simp: fresh_def)
  have fc: "float_count l = int (length fs)" using assms(1) by (simp add: inv_def)
  show ?thesis
    using h ne assms(2,3) fc
    by (simp add: float_pool_step_u_def realloc_def poke_def Let_def resize_def)
qed

lemma encode_float_row:
  assumes "inv l w xs fs bs"
  shows "\<exists>fa l' w'. encode_row_u 1 [SQLITE_FLOAT d] (l, w) = (l', w') \<and>
           inv l' w' (xs @ [Tag ERL_DRV_FLOAT, FloatPtr fa (length fs), Tag ERL_DRV_TUPLE, Num 1])
             (fs @ [d]) bs \<and>
           floats l' = Some fa \<and> frame w w' \<and>
           (\<forall>f. floats l = Some f \<longrightarrow> relocates w (reallocs w) \<longrightarrow> heap w' f = None)"
proof -
  obtain fa w1 where
    p: "float_pool_step_u d (l, w) = (l\<lparr>floats := Some fa, float_count := float_count l + 1\<rparr>, w1)"
    and i1: "inv (l\<lparr>floats := Some fa, float_count := float_count l + 1\<rparr>) w1 xs (fs @ [d]) bs"
    and fr1: "frame w w1"
    by (rule float_pool_step_inv[OF assms, of d]) blast
  let ?l1 = "l\<lparr>floats := Some fa, float_count := float_count l + 1\<rparr>"
  let ?vs = "[Tag ERL_DRV_FLOAT, FloatPtr fa (length fs)]"
  let ?close = "[Tag ERL_DRV_TUPLE, Num (of_int 1)]"
  have fc: "float_count l = int (length fs)" using assms by (simp add: inv_def)
  obtain l2 w2 where q: "push xs ?vs (?l1, w1) = (l2, w2)"
    and i2: "inv l2 w2 (xs @ ?vs) (fs @ [d]) bs" and fr2: "frame w1 w2"
    and p2: "floats l2 = floats ?l1"
    using push_run[OF i1, of ?vs] by auto
  have h1: "holds (dataset ?l1) w1 xs" "term_count ?l1 = int (length xs)"
    using i1 by (auto simp: inv_def)
  have ea: "elem_addr (floats ?l1) (float_count ?l1 - 1) = FloatPtr fa (length fs)"
    using fc by (simp add: elem_addr_def)
  have e: "encode_column_u (SQLITE_FLOAT d) (l, w) = (l2, w2)"
    unfolding encode_column_u_def cell.case p prod.case encode_float_push[OF h1] ea
    using q by simp
  obtain l3 w3 where q3: "push (xs @ ?vs) ?close (l2, w2) = (l3, w3)"
    and i3: "inv l3 w3 ((xs @ ?vs) @ ?close) (fs @ [d]) bs" and fr3: "frame w2 w3"
    and p3: "floats l3 = floats l2"
    using push_run[OF i2, of ?close] by auto
  have h2: "holds (dataset l2) w2 (xs @ ?vs)" "term_count l2 = int (length (xs @ ?vs))"
    using i2 by (auto simp: inv_def)
  have fd: "fold (\<lambda>i. encode_column_u (column [SQLITE_FLOAT d] i)) [0..<nat 1] (l, w) = (l2, w2)"
    using e by (simp add: column_def)
  have er: "encode_row_u 1 [SQLITE_FLOAT d] (l, w) = (l3\<lparr>row_count := row_count l2 + 1\<rparr>, w3)"
    unfolding encode_row_u_def fd prod.case row_close_push[OF h2] q3 by simp
  have dead: "heap w3 f = None" if f: "floats l = Some f" and r: "relocates w (reallocs w)" for f
  proof -
    have "heap w1 f = None" using float_pool_moves[OF assms f r, of d] p by simp
    moreover have "f < brk w1"
    proof -
      have "heap w f = Some (Array (map Double fs))" using assms f by (simp add: inv_def holds_def)
      moreover have "fresh w" using assms by (simp add: inv_def)
      ultimately have "f < brk w" by (rule live_lt[rotated])
      then show ?thesis using fr1 by (simp add: frame_def)
    qed
    ultimately show ?thesis using frame_trans[OF fr2 fr3] by (simp add: frame_def)
  qed
  show ?thesis
    using er i3 p2 p3 frame_trans[OF fr1 frame_trans[OF fr2 fr3]] dead
    by (intro exI[of _ fa] exI[of _ "l3\<lparr>row_count := row_count l2 + 1\<rparr>"] exI[of _ w3]) simp
qed

lemma second_float_row_dangles:
  assumes "fresh w" "\<not> crashed w" "ac_term_count ac = 0"
    and "ac_statement ac = Some st" "column_names st = [c]"
    and "rows st = [[SQLITE_FLOAT d1], [SQLITE_FLOAT d2]]" "final st = SQLITE_DONE"
    and "\<forall>k. relocates w k"
  shows "\<exists>a i. FloatPtr a i \<in> set (handed (sql_exec_async_u ac w)) \<and>
               heap (snd (sql_exec_async_u ac w)) a = None"
proof -
  let ?st = "ac_statement ac"
  let ?cc = "sqlite3_column_count ?st"
  have cc: "?cc = 1" using assms(4,5) by (simp add: sqlite3_column_count_def)
  have rw: "step_rows ?st = [[SQLITE_FLOAT d1], [SQLITE_FLOAT d2]]"
    using assms(4,6) by (simp add: step_rows_def)
  have fin: "step_final ?st = SQLITE_DONE" using assms(4,7) by (simp add: step_final_def)
  obtain l0 w0 fs0 bs0 where eb: "encode_begin_u ac w = (l0, w0)"
    and i0: "inv l0 w0 (begin_slots ?st w) fs0 bs0" and f0: "frame w w0"
    using encode_begin_step[OF assms(1,2,3)] by blast
  obtain fa l1 w1 where e1: "encode_row_u 1 [SQLITE_FLOAT d1] (l0, w0) = (l1, w1)"
    and i1: "inv l1 w1 (begin_slots ?st w @
               [Tag ERL_DRV_FLOAT, FloatPtr fa (length fs0), Tag ERL_DRV_TUPLE, Num 1])
               (fs0 @ [d1]) bs0"
    and p1: "floats l1 = Some fa" and f1: "frame w0 w1"
    using encode_float_row[OF i0, of d1] by blast
  let ?xs1 = "begin_slots ?st w @
               [Tag ERL_DRV_FLOAT, FloatPtr fa (length fs0), Tag ERL_DRV_TUPLE, Num 1]"
  obtain fb l2 w2 where e2: "encode_row_u 1 [SQLITE_FLOAT d2] (l1, w1) = (l2, w2)"
    and i2: "inv l2 w2 (?xs1 @
               [Tag ERL_DRV_FLOAT, FloatPtr fb (length (fs0 @ [d1])), Tag ERL_DRV_TUPLE, Num 1])
               ((fs0 @ [d1]) @ [d2]) bs0"
    and f2: "frame w1 w2"
    and d2: "\<forall>f. floats l1 = Some f \<longrightarrow> relocates w1 (reallocs w1) \<longrightarrow> heap w2 f = None"
    using encode_float_row[OF i1, of d2] by blast
  let ?xs2 = "?xs1 @ [Tag ERL_DRV_FLOAT, FloatPtr fb (length (fs0 @ [d1])), Tag ERL_DRV_TUPLE, Num 1]"
  have rl: "relocates w1 = relocates w" using f0 f1 by (simp add: frame_def)
  have dead2: "heap w2 fa = None" using d2 p1 rl assms(8) by simp
  have lt2: "fa < brk w2"
  proof -
    have "heap w1 fa = Some (Array (map Double (fs0 @ [d1])))"
      using i1 p1 by (simp add: inv_def holds_def)
    moreover have "fresh w1" using i1 by (simp add: inv_def)
    ultimately have "fa < brk w1" by (rule live_lt[rotated])
    then show ?thesis using f2 by (simp add: frame_def)
  qed
  have stp: "stepping_u ?cc (step_rows ?st) (encode_begin_u ac w) = (l2, w2)"
    unfolding cc rw eb using e1 e2 by simp
  let ?w2 = "after_stepping ?st w2"
  have i2': "inv l2 ?w2 ?xs2 ((fs0 @ [d1]) @ [d2]) bs0" using i2 by simp
  have sq: "0 < ?cc \<or> sqlite3_sql ?st \<noteq> None" using cc by simp
  obtain l' w3 where c: "close_reply_u (envelope_u ?st ?cc SQLITE_DONE (l2, ?w2)) = (l', w3)"
    and i3: "inv l' w3 (?xs2 @ reply_tail ?st (row_count l2)) ((fs0 @ [d1]) @ [d2]) bs0"
    and f3: "frame ?w2 w3"
    using envelope_run[OF i2' sq] by blast
  let ?w' = "fprintf_stderr (Exec_total (map_option handle ?st) (term_count l') ?cc (row_count l')) w3"
  let ?ac' = "ac\<lparr>ac_row_count := row_count l2, ac_floats := floats l2,
                 ac_binaries := binaries l2, ac_binaries_count := binaries_count l2,
                 ac_dataset := dataset l', ac_term_count := term_count l'\<rparr>"
  have run: "sql_exec_async_u ac w = (?ac', ?w')"
    using stp c fin
    by (simp add: sql_exec_async_u_def Let_def case_prod_unfold SQLITE_BUSY_def SQLITE_DONE_def)
  have dead3: "heap ?w' fa = None"
    using f3 dead2 lt2 by (simp add: frame_def)
  have i4: "inv l' ?w' (?xs2 @ reply_tail ?st (row_count l2)) ((fs0 @ [d1]) @ [d2]) bs0"
    using i3 by simp
  have hd: "handed (?ac', ?w') = ?xs2 @ reply_tail ?st (row_count l2)"
    by (rule handed_inv[OF i4]) simp_all
  have "FloatPtr fa (length fs0) \<in> set (handed (sql_exec_async_u ac w))"
    unfolding run hd by simp
  moreover have "heap (snd (sql_exec_async_u ac w)) fa = None"
    unfolding run using dead3 by simp
  ultimately show ?thesis by blast
qed

subsection \<open>Bounded counters\<close>

lemma refines_comp:
  assumes "refines f g" "refines f' g'"
  shows "refines (\<lambda>s. f' (f s)) (\<lambda>s. g' (g s))"
  unfolding refines_def
proof (intro allI impI)
  fix l w assume r: "room l"
  obtain l1 w1 where g: "g (l, w) = (l1, w1)" by (cases "g (l, w)")
  have 1: "room l1" "term_count l \<le> term_count l1"
    "term_count l1 \<le> INT_MAX \<longrightarrow> f (l, w) = (l1, w1)"
    using assms(1) r g unfolding refines_def by (metis fst_conv)+
  have 2: "room (fst (g' (l1, w1)))" "term_count l1 \<le> term_count (fst (g' (l1, w1)))"
    "term_count (fst (g' (l1, w1))) \<le> INT_MAX \<longrightarrow> f' (l1, w1) = g' (l1, w1)"
    using assms(2) 1(1) unfolding refines_def by blast+
  show "room (fst (g' (g (l, w)))) \<and> term_count l \<le> term_count (fst (g' (g (l, w)))) \<and>
        (term_count (fst (g' (g (l, w)))) \<le> INT_MAX \<longrightarrow> f' (f (l, w)) = g' (g (l, w)))"
    unfolding g using 1 2 by auto
qed

lemma refines_id: "refines (\<lambda>s. s) (\<lambda>s. s)"
  by (simp add: refines_def)

lemma refines_fold:
  assumes "\<And>x. refines (f x) (g x)"
  shows "refines (fold f xs) (fold g xs)"
proof (induction xs)
  case Nil
  show ?case using refines_id by (simp add: id_def)
next
  case (Cons x xs)
  show ?case using refines_comp[OF assms[of x] Cons] by (simp add: comp_def)
qed

lemma refinesD:
  assumes "refines f g" "room (fst s)"
  shows "room (fst (g s))" "term_count (fst s) \<le> term_count (fst (g s))"
    "term_count (fst (g s)) \<le> INT_MAX \<Longrightarrow> f s = g s"
  using assms unfolding refines_def by (cases s; simp)+

lemma port_header_refines: "refines port_header port_header_u"
  unfolding refines_def room_def
  by (simp add: port_header_def port_header_u_def checked_def INT_MIN_def INT_MAX_def Let_def
        case_prod_unfold)

lemma columns_header_refines: "0 \<le> cc \<Longrightarrow> refines (columns_header st cc) (columns_header_u st cc)"
  unfolding refines_def room_def
  by (simp add: columns_header_def columns_header_u_def checked_def INT_MIN_def INT_MAX_def Let_def
        case_prod_unfold)

lemma encode_column_refines: "refines (encode_column c) (encode_column_u c)"
  unfolding refines_def room_def
  by (cases c)
     (simp_all add: encode_column_def encode_column_u_def encode_blob_def encode_blob_u_def
        blob_pool_step_def blob_pool_step_u_def float_pool_step_def float_pool_step_u_def
        checked_def INT_MIN_def INT_MAX_def Let_def case_prod_unfold)

lemma row_close_refines: "refines (row_close cc) (row_close_u cc)"
  unfolding refines_def room_def
  by (simp add: row_close_def row_close_u_def checked_def INT_MIN_def INT_MAX_def Let_def
        case_prod_unfold)

lemma rows_end_refines: "refines rows_end rows_end_u"
  unfolding refines_def room_def
  by (simp add: rows_end_def rows_end_u_def checked_def INT_MIN_def INT_MAX_def Let_def
        case_prod_unfold)

lemma rows_pair_refines: "refines rows_pair rows_pair_u"
  unfolding refines_def room_def
  by (simp add: rows_pair_def rows_pair_u_def checked_def INT_MIN_def INT_MAX_def Let_def
        case_prod_unfold)

lemma body_list_refines: "refines body_list body_list_u"
  unfolding refines_def room_def
  by (simp add: body_list_def body_list_u_def checked_def INT_MIN_def INT_MAX_def Let_def
        case_prod_unfold)

lemma insert_id_refines: "refines (insert_id st) (insert_id_u st)"
  unfolding refines_def room_def
  by (simp add: insert_id_def insert_id_u_def checked_def INT_MIN_def INT_MAX_def Let_def
        case_prod_unfold)

lemma status_ok_refines: "refines (status_ok n) (status_ok_u n)"
  unfolding refines_def room_def
  by (simp add: status_ok_def status_ok_u_def checked_def INT_MIN_def INT_MAX_def Let_def
        case_prod_unfold)

lemma close_reply_refines: "refines close_reply close_reply_u"
  unfolding refines_def room_def
  by (simp add: close_reply_def close_reply_u_def checked_def INT_MIN_def INT_MAX_def Let_def
        case_prod_unfold)

lemma encode_row_close: "encode_row cc row s = row_close cc (fold (\<lambda>i. encode_column (column row i)) [0..<nat cc] s)"
  by (simp add: encode_row_def row_close_def)

lemma encode_row_u_close:
  "encode_row_u cc row s = row_close_u cc (fold (\<lambda>i. encode_column_u (column row i)) [0..<nat cc] s)"
  by (simp add: encode_row_u_def row_close_u_def)

lemma encode_row_refines: "refines (encode_row cc row) (encode_row_u cc row)"
proof -
  have "refines (fold (\<lambda>i. encode_column (column row i)) [0..<nat cc])
                (fold (\<lambda>i. encode_column_u (column row i)) [0..<nat cc])"
    by (rule refines_fold) (rule encode_column_refines)
  from refines_comp[OF this row_close_refines[of cc]] show ?thesis
    by (simp add: encode_row_close[abs_def] encode_row_u_close[abs_def])
qed

lemma stepping_refines: "refines (stepping cc rws) (stepping_u cc rws)"
proof (induction rws)
  case Nil
  have "stepping cc [] = (\<lambda>s. s)" "stepping_u cc [] = (\<lambda>s. s)" by (simp_all add: fun_eq_iff)
  then show ?case using refines_id by simp
next
  case (Cons r rws)
  have "stepping cc (r # rws) = (\<lambda>s. stepping cc rws (encode_row cc r s))"
    "stepping_u cc (r # rws) = (\<lambda>s. stepping_u cc rws (encode_row_u cc r s))"
    by (simp_all add: fun_eq_iff)
  then show ?case using refines_comp[OF encode_row_refines[of cc r] Cons] by simp
qed

lemma crash_refines:
  "refines (\<lambda>s. case s of (l, w) \<Rightarrow> (l, w\<lparr>crashed := True\<rparr>))
           (\<lambda>s. case s of (l, w) \<Rightarrow> (l, w\<lparr>crashed := True\<rparr>))"
  by (simp add: refines_def)

lemma envelope_refines: "refines (envelope st cc n) (envelope_u st cc n)"
proof (cases "0 < cc")
  case True
  have "envelope st cc n = (\<lambda>s. body_list (rows_pair (rows_end s)))"
    "envelope_u st cc n = (\<lambda>s. body_list_u (rows_pair_u (rows_end_u s)))"
    using True by (simp_all add: fun_eq_iff envelope_def envelope_u_def)
  then show ?thesis
    using refines_comp[OF refines_comp[OF rows_end_refines rows_pair_refines] body_list_refines]
    by simp
next
  case False
  show ?thesis
  proof (cases "sqlite3_sql st")
    case None
    have "envelope st cc n = (\<lambda>s. case s of (l, w) \<Rightarrow> (l, w\<lparr>crashed := True\<rparr>))"
      "envelope_u st cc n = (\<lambda>s. case s of (l, w) \<Rightarrow> (l, w\<lparr>crashed := True\<rparr>))"
      using False None by (simp_all add: fun_eq_iff envelope_def envelope_u_def)
    then show ?thesis using crash_refines by simp
  next
    case (Some sqltext)
    show ?thesis
    proof (cases "strcasestr sqltext ''INSERT''")
      case True
      have "envelope st cc n = insert_id st" "envelope_u st cc n = insert_id_u st"
        using False Some True by (simp_all add: fun_eq_iff envelope_def envelope_u_def)
      then show ?thesis using insert_id_refines by simp
    next
      case nins: False
      have "envelope st cc n = status_ok n" "envelope_u st cc n = status_ok_u n"
        using False Some nins by (simp_all add: fun_eq_iff envelope_def envelope_u_def)
      then show ?thesis using status_ok_refines by simp
    qed
  qed
qed

lemma reply_refines:
  "refines (\<lambda>s. close_reply (envelope st cc n s)) (\<lambda>s. close_reply_u (envelope_u st cc n s))"
  by (rule refines_comp[OF envelope_refines close_reply_refines])

lemma begin_refines:
  "refines (\<lambda>s. if 0 < cc then columns_header st cc (port_header s) else port_header s)
           (\<lambda>s. if 0 < cc then columns_header_u st cc (port_header_u s) else port_header_u s)"
proof (cases "0 < cc")
  case True
  then have "0 \<le> cc" by simp
  from refines_comp[OF port_header_refines columns_header_refines[OF this, of st]] True
  show ?thesis by simp
next
  case False
  then show ?thesis using port_header_refines by (simp add: refines_def)
qed

lemma encode_begin_alt:
  "encode_begin ac w =
     (case (if 0 < sqlite3_column_count (ac_statement ac)
            then columns_header (ac_statement ac) (sqlite3_column_count (ac_statement ac))
                   (port_header (locals0 ac, w))
            else port_header (locals0 ac, w)) of
        (l, w') \<Rightarrow> (l, fprintf_stderr (Exec_line (sqlite3_sql (ac_statement ac))) w'))"
  by (simp add: encode_begin_def locals0_def Let_def case_prod_unfold)

lemma encode_begin_u_alt:
  "encode_begin_u ac w =
     (case (if 0 < sqlite3_column_count (ac_statement ac)
            then columns_header_u (ac_statement ac) (sqlite3_column_count (ac_statement ac))
                   (port_header_u (locals0 ac, w))
            else port_header_u (locals0 ac, w)) of
        (l, w') \<Rightarrow> (l, fprintf_stderr (Exec_line (sqlite3_sql (ac_statement ac))) w'))"
  by (simp add: encode_begin_u_def locals0_def Let_def case_prod_unfold)

lemma room_locals0: "ac_term_count ac = 0 \<Longrightarrow> ac_row_count ac = 0 \<Longrightarrow> room (locals0 ac)"
  by (simp add: room_def locals0_def)

lemma encode_begin_bounded:
  assumes "ac_term_count ac = 0" "ac_row_count ac = 0"
  shows "room (fst (encode_begin_u ac w))"
    and "term_count (fst (encode_begin_u ac w)) \<le> INT_MAX \<Longrightarrow> encode_begin ac w = encode_begin_u ac w"
proof -
  let ?cc = "sqlite3_column_count (ac_statement ac)"
  let ?g = "\<lambda>s. if 0 < ?cc then columns_header_u (ac_statement ac) ?cc (port_header_u s) else port_header_u s"
  let ?f = "\<lambda>s. if 0 < ?cc then columns_header (ac_statement ac) ?cc (port_header s) else port_header s"
  have r: "room (fst (locals0 ac, w))" using room_locals0[OF assms] by simp
  note d = refinesD[OF begin_refines[of ?cc "ac_statement ac"] r]
  have t: "fst (encode_begin_u ac w) = fst (?g (locals0 ac, w))"
    unfolding encode_begin_u_alt by (simp add: case_prod_unfold)
  show "room (fst (encode_begin_u ac w))" unfolding t using d(1) .
  show "encode_begin ac w = encode_begin_u ac w" if "term_count (fst (encode_begin_u ac w)) \<le> INT_MAX"
  proof -
    have "?f (locals0 ac, w) = ?g (locals0 ac, w)" using d(3) that unfolding t .
    then show ?thesis unfolding encode_begin_alt encode_begin_u_alt by simp
  qed
qed

lemma term_count_encode_column_u:
  "term_count (fst (encode_column_u c s)) = term_count (fst s) + int (slot_width c)"
  by (cases c)
     (simp_all add: encode_column_u_def encode_blob_u_def blob_pool_step_u_def float_pool_step_u_def
        Let_def case_prod_unfold)

lemma term_count_cells_u:
  "term_count (fst (fold encode_column_u cs s)) = term_count (fst s) + int (sum_list (map slot_width cs))"
  by (induction cs arbitrary: s) (simp_all add: term_count_encode_column_u)

lemma fold_cells_u:
  "fold (\<lambda>i. encode_column_u (column row i)) [0..<nat cc] s = fold encode_column_u (cells cc row) s"
  by (simp add: cells_def fold_map comp_def)

lemma fold_cells:
  "fold (\<lambda>i. encode_column (column row i)) [0..<nat cc] s = fold encode_column (cells cc row) s"
  by (simp add: cells_def fold_map comp_def)

lemma term_count_encode_row_u:
  "term_count (fst (encode_row_u cc row s)) = term_count (fst s) + int (row_cells cc row)"
  unfolding encode_row_u_close fold_cells_u
  by (simp add: row_close_u_def Let_def case_prod_unfold term_count_cells_u row_cells_def)

lemma term_count_stepping_u:
  "term_count (fst (stepping_u cc rws s)) = term_count (fst s) + int (sum_list (map (row_cells cc) rws))"
  by (induction rws arbitrary: s) (simp_all add: term_count_encode_row_u)

lemma term_count_encode_begin_u:
  "term_count (fst (encode_begin_u ac w))
   = ac_term_count ac + 2 +
     (if 0 < sqlite3_column_count (ac_statement ac) then 2 * sqlite3_column_count (ac_statement ac) + 9
      else 0)"
  by (simp add: encode_begin_u_def port_header_u_def columns_header_u_def Let_def case_prod_unfold)

lemma term_count_reply_u:
  "sqlite3_sql st \<noteq> None \<Longrightarrow>
   term_count (fst (close_reply_u (envelope_u st cc n s)))
   = term_count (fst s) + (if 0 < cc then 10 else 8)"
  by (auto simp: close_reply_u_def envelope_u_def rows_end_u_def rows_pair_u_def body_list_u_def
        insert_id_u_def status_ok_u_def Let_def case_prod_unfold)

lemma cells_in_place_bounded:
  "room (fst s) \<Longrightarrow> term_count (fst (fold encode_column_u cs s)) \<le> INT_MAX \<Longrightarrow>
   cells_in_place cs s = cells_in_place_u cs s \<and> fold encode_column cs s = fold encode_column_u cs s"
proof (induction cs arbitrary: s)
  case Nil
  show ?case by simp
next
  case (Cons c cs)
  note d = refinesD[OF encode_column_refines[of c] Cons.prems(1)]
  have r: "refines (fold encode_column cs) (fold encode_column_u cs)"
    by (rule refines_fold) (rule encode_column_refines)
  have "term_count (fst (encode_column_u c s)) \<le> term_count (fst (fold encode_column_u cs (encode_column_u c s)))"
    using refinesD(2)[OF r d(1)] .
  then have e: "encode_column c s = encode_column_u c s"
    using d(3) Cons.prems(2) by simp
  show ?case
    using Cons.IH[OF d(1)] Cons.prems(2) e by simp
qed

lemma rows_in_place_bounded:
  "room (fst s) \<Longrightarrow> term_count (fst (stepping_u cc rws s)) \<le> INT_MAX \<Longrightarrow>
   rows_in_place cc rws s = rows_in_place_u cc rws s"
proof (induction rws arbitrary: s)
  case Nil
  show ?case by simp
next
  case (Cons r rws)
  note d = refinesD[OF encode_row_refines[of cc r] Cons.prems(1)]
  have m: "term_count (fst (encode_row_u cc r s)) \<le> term_count (fst (stepping_u cc rws (encode_row_u cc r s)))"
    using refinesD(2)[OF stepping_refines d(1)] .
  then have le: "term_count (fst (encode_row_u cc r s)) \<le> INT_MAX" using Cons.prems(2) by simp
  then have e: "encode_row cc r s = encode_row_u cc r s" using d(3) by simp
  have "term_count (fst (fold encode_column_u (cells cc r) s)) \<le> term_count (fst (encode_row_u cc r s))"
    by (simp add: term_count_cells_u term_count_encode_row_u row_cells_def)
  then have c: "cells_in_place (cells cc r) s = cells_in_place_u (cells cc r) s"
    using cells_in_place_bounded[OF Cons.prems(1), of "cells cc r"] le by simp
  show ?case
    using Cons.IH[OF d(1)] Cons.prems(2) e c by simp
qed

lemma stepping_bounded:
  assumes "ac_term_count ac = 0" "ac_row_count ac = 0"
    and "term_count (fst (stepping_u cc rws (encode_begin_u ac w))) \<le> INT_MAX"
  shows "stepping cc rws (encode_begin ac w) = stepping_u cc rws (encode_begin_u ac w)"
    and "room (fst (stepping_u cc rws (encode_begin_u ac w)))"
    and "rows_in_place cc rws (encode_begin ac w) = rows_in_place_u cc rws (encode_begin_u ac w)"
proof -
  note b = encode_begin_bounded[OF assms(1,2), of w]
  note d = refinesD[OF stepping_refines[of cc rws] b(1)]
  have e0: "encode_begin ac w = encode_begin_u ac w" using b(2) d(2) assms(3) by simp
  show "stepping cc rws (encode_begin ac w) = stepping_u cc rws (encode_begin_u ac w)"
    unfolding e0 using d(3) assms(3) by simp
  show "room (fst (stepping_u cc rws (encode_begin_u ac w)))" using d(1) .
  show "rows_in_place cc rws (encode_begin ac w) = rows_in_place_u cc rws (encode_begin_u ac w)"
    unfolding e0 using rows_in_place_bounded[OF b(1) assms(3)] .
qed

lemma sql_exec_async_bounded:
  assumes "ac_term_count ac = 0" "ac_row_count ac = 0"
    and "encoded_cells (sqlite3_column_count (ac_statement ac)) (step_rows (ac_statement ac))
           (step_final (ac_statement ac)) \<le> INT_MAX"
  shows "sql_exec_async ac w = sql_exec_async_u ac w"
proof -
  let ?st = "ac_statement ac"
  let ?cc = "sqlite3_column_count ?st"
  let ?rows = "step_rows ?st"
  let ?s1 = "stepping_u ?cc ?rows (encode_begin_u ac w)"
  have t1: "term_count (fst ?s1)
            = 2 + (if 0 < ?cc then 2 * ?cc + 9 else 0) + int (sum_list (map (row_cells ?cc) ?rows))"
    using assms(1) by (simp add: term_count_stepping_u term_count_encode_begin_u)
  have le1: "term_count (fst ?s1) \<le> INT_MAX"
    using assms(3) unfolding t1 encoded_cells_def by (simp split: if_splits)
  note sb = stepping_bounded[OF assms(1,2) le1]
  note b = encode_begin_bounded[OF assms(1,2), of w]
  have "term_count (fst (encode_begin_u ac w)) \<le> term_count (fst ?s1)"
    using refinesD(2)[OF stepping_refines b(1)] .
  then have e0: "encode_begin ac w = encode_begin_u ac w" using b(2) le1 by simp
  have e1: "stepping ?cc ?rows (encode_begin_u ac w) = ?s1" using sb(1) unfolding e0 .
  show ?thesis
  proof (cases "step_final ?st = SQLITE_DONE")
    case True
    then have sq: "sqlite3_sql ?st \<noteq> None"
      by (cases ?st) (simp_all add: step_final_def sqlite3_sql_def SQLITE_MISUSE_def SQLITE_DONE_def)
    let ?s1' = "(fst ?s1, after_stepping ?st (snd ?s1))"
    have r1: "room (fst ?s1')" using sb(2) by simp
    have "term_count (fst (close_reply_u (envelope_u ?st ?cc (step_final ?st) ?s1')))
          = term_count (fst ?s1) + (if 0 < ?cc then 10 else 8)"
      using term_count_reply_u[OF sq, of ?cc "step_final ?st" ?s1'] by simp
    then have "term_count (fst (close_reply_u (envelope_u ?st ?cc (step_final ?st) ?s1'))) \<le> INT_MAX"
      using assms(3) True unfolding t1 encoded_cells_def by simp
    then have e2: "close_reply (envelope ?st ?cc (step_final ?st) ?s1')
                   = close_reply_u (envelope_u ?st ?cc (step_final ?st) ?s1')"
      using refinesD(3)[OF reply_refines[of ?st ?cc "step_final ?st"] r1] by simp
    show ?thesis
      unfolding sql_exec_async_def sql_exec_async_u_def
      using True by (simp add: Let_def case_prod_unfold e0 e1 e2[unfolded True])
  next
    case False
    show ?thesis
      unfolding sql_exec_async_def sql_exec_async_u_def
      using False by (simp add: Let_def case_prod_unfold e0 e1)
  qed
qed

subsection \<open>Runs of \<open>sql_exec\<close>\<close>

lemma sql_exec_run:
  assumes "db (drv w) command = Compiled q"
  shows "sql_exec command w =
         (0, case sql_exec_async (command_of w q) (launched w q) of (ac', w') \<Rightarrow> ready_async ac' w')"
  using assms
  by (cases q)
     (simp_all add: sql_exec_def sqlite3_prepare_v2_def Let_def alloc_def dispatched_def
        new_command_def SQLITE_OK_def case_prod_unfold command_of_def launched_def statement_of_def)

lemma launched_facts:
  "fresh w \<Longrightarrow> fresh (launched w q)" "crashed (launched w q) = crashed w"
  "sent (launched w q) = sent w" "drv (launched w q) = drv w"
  "relocates (launched w q) = relocates w" "db_errmsg (launched w q) = db_errmsg w"
  "heap (launched w q) (ac_self (command_of w q)) = Some Command"
  "\<forall>s. statement_of w q = Some s \<longrightarrow> heap (launched w q) (handle s) = Some Statement"
  "ac_term_count (command_of w q) = 0" "ac_row_count (command_of w q) = 0"
  "ac_statement (command_of w q) = statement_of w q"
  by (cases q; auto simp: launched_def command_of_def statement_of_def dispatched_def alloc_def
        fresh_def new_command_def)+

lemma sql_exec_compiled:
  assumes "db (drv w) command = Compiled (Some p)"
  shows "sql_exec command w =
         (0, case sql_exec_async (new_command (Suc (brk w)) (Some (prepared (brk w) p))) (dispatched w)
             of (ac', w') \<Rightarrow> ready_async ac' w')"
  using sql_exec_run[OF assms] by (simp add: command_of_def launched_def statement_of_def)

lemma crashed_after_stepping [simp]: "crashed (after_stepping statement w) = crashed w"
  by (simp add: after_stepping_def split: option.splits)

lemma failure_message_frame:
  "db_errmsg w' = db_errmsg w \<Longrightarrow> failure_message st w' = failure_message st w"
  by (cases st) (simp_all add: failure_message_def sqlite3_errmsg_def after_stepping_def)

lemma begin_slots_drv: "drv w' = drv w \<Longrightarrow> begin_slots st w' = begin_slots st w"
  by (simp add: begin_slots_def)

lemma ready_failed_u:
  assumes "fresh w" "\<not> crashed w" "heap w a = Some Command"
    and "\<forall>s. st = Some s \<longrightarrow> heap w (handle s) = Some Statement"
    and "step_final st \<noteq> SQLITE_DONE" "c_string (failure_message st w)"
  shows "\<exists>ac' w'. sql_exec_async_u (new_command a st) w = (ac', w') \<and>
     sent (ready_async ac' w')
       = sent w @ [(port (drv w), ETuple [EAtom ''error'', estring (failure_message st w)])] \<and>
     \<not> crashed (ready_async ac' w') \<and>
     (\<exists>d rs. list_all2 (row_slots (sqlite3_column_count st)) (step_rows st) rs \<and>
        heap (ready_async ac' w') d = Some (Array (begin_slots st w @ concat rs)))"
proof -
  let ?ac = "new_command a st"
  let ?msg = "failure_message st w"
  have pre: "fresh w" "\<not> crashed w" "ac_term_count ?ac = 0"
    "step_final (ac_statement ?ac) \<noteq> SQLITE_DONE"
    using assms(1,2,5) by (simp_all add: new_command_def)
  have st: "ac_statement ?ac = st" by (simp add: new_command_def)
  obtain l w1 rs fs bs where i: "inv l w1 (begin_slots st w @ concat rs) fs bs"
    and f: "frame w w1"
    and rs: "list_all2 (row_slots (sqlite3_column_count st)) (step_rows st) rs"
    and run: "sql_exec_async_u ?ac w =
       (?ac\<lparr>ac_row_count := row_count l, ac_floats := floats l, ac_binaries := binaries l,
           ac_binaries_count := binaries_count l, ac_dataset := Some (brk w1), ac_term_count := 7\<rparr>,
        (after_stepping st w1)
          \<lparr>heap := (heap w1)(brk w1 \<mapsto> Array (error_slots (failure_message st w1))),
           brk := Suc (brk w1)\<rparr>)"
    using sql_exec_async_failed[OF pre, unfolded st] by blast
  let ?e = "brk w1"
  let ?ac' = "?ac\<lparr>ac_row_count := row_count l, ac_floats := floats l, ac_binaries := binaries l,
           ac_binaries_count := binaries_count l, ac_dataset := Some ?e, ac_term_count := 7\<rparr>"
  have msg: "failure_message st w1 = ?msg"
    using f by (intro failure_message_frame) (simp add: frame_def)
  have cs: "c_string ?msg" using assms(6) .
  let ?w2 = "(after_stepping st w1)\<lparr>heap := (heap w1)(?e \<mapsto> Array (error_slots ?msg)),
                brk := Suc ?e\<rparr>"
  have dk: "drv w1 = drv w" "sent w1 = sent w"
    using f by (simp_all add: frame_def)
  have d2: "drv ?w2 = drv w" "sent ?w2 = sent w"
    using dk by (cases st; simp add: after_stepping_def)+
  let ?t = "ETuple [EAtom ''error'', estring ?msg]"
  let ?w3 = "?w2\<lparr>sent := sent w @ [(port (drv w), ?t)]\<rparr>"
  have out: "driver_output_term (port (drv ?w2)) (Some ?e) 7 ?w2 = (1, ?w3)"
    using decode_error[OF cs, of "(heap w1)(?e \<mapsto> Array (error_slots ?msg))"] d2
    by (simp add: driver_output_term_def error_slots_def)
  let ?w4 = "fprintf_stderr (Ready_total (map_option handle st) 7 (row_count l) 1) ?w3"
  have ready: "ready_async ?ac' ?w2 = sql_free_async ?ac' ?w4"
    using out by (simp add: ready_async_def Let_def new_command_def)
  have i2: "inv l (w1\<lparr>heap := (heap w1)(?e \<mapsto> Array (error_slots ?msg)), brk := Suc ?e\<rparr>)
              (begin_slots st w @ concat rs) fs bs"
    by (rule inv_alloc[OF i])
  have i4: "inv l ?w4 (begin_slots st w @ concat rs) fs bs"
    using i2 i
    by (subst inv_cong[of _ "w1\<lparr>heap := (heap w1)(?e \<mapsto> Array (error_slots ?msg)), brk := Suc ?e\<rparr>"])
       (simp_all add: fprintf_stderr_def inv_def)
  have h4: "heap ?w4 = (heap w1)(?e \<mapsto> Array (error_slots ?msg))"
    by (simp add: fprintf_stderr_def)
  have fw1: "fresh w1" using i by (simp add: inv_def)
  have nl: "heap w1 ?e = None" using fw1 by (simp add: fresh_def)
  have hc: "heap w1 a = Some Command" using f assms(3) by (auto simp: frame_def)
  have hs: "\<forall>s. st = Some s \<longrightarrow> heap w1 (handle s) = Some Statement"
    using f assms(4) by (auto simp: frame_def)
  have ne: "floats l \<noteq> Some ?e" "binaries l \<noteq> Some ?e" "dataset l \<noteq> Some ?e"
    using i nl by (auto simp: inv_def holds_def)
  obtain d where d: "dataset l = Some d" "heap w1 d = Some (Array (begin_slots st w @ concat rs))"
    using i by (cases "dataset l") (auto simp: inv_def holds_def begin_slots_def)
  have free: "sql_free_async ?ac' ?w4
              = without (freed ?ac' bs) (?w4\<lparr>drv := (drv ?w4)\<lparr>async_handle := 0\<rparr>\<rparr>)"
  proof (rule sql_free_async_run[where e = ?e and ys = "error_slots ?msg" and fs = fs])
    show "ac_dataset ?ac' = Some ?e" by simp
    show "heap ?w4 ?e = Some (Array (error_slots ?msg))" by (simp add: h4)
    show "holds (ac_floats ?ac') ?w4 (map Double fs)" using i4 by (simp add: inv_def)
    show "holds (ac_binaries ?ac') ?w4 (map BinaryPtr bs)" using i4 by (simp add: inv_def)
    show "ac_binaries_count ?ac' = int (length bs)" using i4 by (simp add: inv_def)
    show "distinct bs" using i4 by (simp add: inv_def)
    show "\<forall>b\<in>set bs. \<exists>bytes. heap ?w4 b = Some (Binary bytes)" using i4 unfolding inv_def by blast
    show "ac_floats ?ac' \<noteq> Some ?e" using ne by simp
    show "ac_binaries ?ac' \<noteq> Some ?e" using ne by simp
    show "ac_floats ?ac' \<noteq> None \<longrightarrow> ac_floats ?ac' \<noteq> ac_binaries ?ac'" using i4 by (simp add: inv_def)
    show "\<forall>s. ac_statement ?ac' = Some s \<longrightarrow> heap ?w4 (handle s) = Some Statement"
      using hs nl by (auto simp: h4 new_command_def)
    show "heap ?w4 (ac_self ?ac') = Some Command" using hc nl by (auto simp: h4 new_command_def)
  qed
  have fin: "ready_async ?ac' ?w2
             = without (freed ?ac' bs) (?w4\<lparr>drv := (drv ?w4)\<lparr>async_handle := 0\<rparr>\<rparr>)"
    unfolding ready by (rule free)
  have s4: "sent ?w4 = sent w @ [(port (drv w), ?t)]" by (simp add: fprintf_stderr_def)
  have c4: "\<not> crashed ?w4" using i4 by (simp add: inv_def)
  have dn: "d \<notin> set (freed ?ac' bs)"
  proof -
    have "d \<noteq> ?e" using d ne by simp
    moreover have "Some d \<noteq> floats l" "Some d \<noteq> binaries l" using i d by (auto simp: inv_def)
    moreover have "d \<notin> set bs" using i d by (auto simp: inv_def)
    moreover have "d \<noteq> a" using d hc by auto
    moreover have "\<forall>s. st = Some s \<longrightarrow> d \<noteq> handle s" using d hs by auto
    ultimately show ?thesis
      by (auto simp: freed_def option_list_def new_command_def split: option.splits)
  qed
  have hd: "heap (ready_async ?ac' ?w2) d = Some (Array (begin_slots st w @ concat rs))"
    unfolding fin using dn d \<open>dataset l \<noteq> Some ?e\<close>
    by (simp add: heap_without h4)
  have "sent (ready_async ?ac' ?w2) = sent w @ [(port (drv w), ?t)]"
    unfolding fin using s4 by simp
  moreover have "\<not> crashed (ready_async ?ac' ?w2)"
    unfolding fin using c4 by simp
  moreover have "\<exists>d rs. list_all2 (row_slots (sqlite3_column_count st)) (step_rows st) rs \<and>
            heap (ready_async ?ac' ?w2) d = Some (Array (begin_slots st w @ concat rs))"
    using hd rs by (intro exI[of _ d] exI[of _ rs]) simp
  ultimately show ?thesis unfolding run[unfolded msg] by simp
qed

lemma sql_exec_failed:
  assumes "fresh w" "\<not> crashed w" "db (drv w) command = Compiled q"
    and "step_final (statement_of w q) \<noteq> SQLITE_DONE"
    and "c_string (failure_message (statement_of w q) w)"
    and "encoded_cells (sqlite3_column_count (statement_of w q)) (step_rows (statement_of w q))
           (step_final (statement_of w q)) \<le> INT_MAX"
  shows "sent (snd (sql_exec command w))
           = sent w @ [(port (drv w),
               ETuple [EAtom ''error'', estring (failure_message (statement_of w q) w)])] \<and>
         \<not> crashed (snd (sql_exec command w)) \<and>
         (\<exists>d rs. list_all2 (row_slots (sqlite3_column_count (statement_of w q)))
                    (step_rows (statement_of w q)) rs \<and>
            heap (snd (sql_exec command w)) d
              = Some (Array (begin_slots (statement_of w q) w @ concat rs)))"
proof -
  let ?st = "statement_of w q"
  let ?ac = "command_of w q"
  let ?w = "launched w q"
  note lf = launched_facts[of w q]
  have ac: "?ac = new_command (ac_self ?ac) ?st" by (simp add: command_of_def new_command_def)
  have b: "sql_exec_async ?ac ?w = sql_exec_async_u ?ac ?w"
    by (rule sql_exec_async_bounded) (use assms(6) lf in simp_all)
  have fm: "failure_message ?st ?w = failure_message ?st w"
    by (rule failure_message_frame) (simp add: lf)
  obtain ac' w' where run: "sql_exec_async_u (new_command (ac_self ?ac) ?st) ?w = (ac', w')"
    and s: "sent (ready_async ac' w')
       = sent ?w @ [(port (drv ?w), ETuple [EAtom ''error'', estring (failure_message ?st ?w)])]"
    and c: "\<not> crashed (ready_async ac' w')"
    and h: "\<exists>d rs. list_all2 (row_slots (sqlite3_column_count ?st)) (step_rows ?st) rs \<and>
        heap (ready_async ac' w') d = Some (Array (begin_slots ?st ?w @ concat rs))"
    using ready_failed_u[of ?w "ac_self ?ac" ?st] assms(1,2,4,5) lf fm by auto
  have e: "snd (sql_exec command w) = ready_async ac' w'"
    unfolding sql_exec_run[OF assms(3)] b using run ac by simp
  show ?thesis
    unfolding e using s c h fm by (simp add: lf begin_slots_drv[of ?w w])
qed

lemma rows_le_cells: "2 * int (length rws) \<le> int (sum_list (map (row_cells cc) rws))"
  by (induction rws) (simp_all add: row_cells_def)

lemma encoded_cells_bounds:
  assumes "encoded_cells cc rws nr \<le> INT_MAX" "0 < cc"
  shows "cc < 2 ^ 31" "length rws < 2 ^ 31"
proof -
  have m: "INT_MAX = 2147483647" by (simp add: INT_MAX_def)
  have a: "2 * cc + 11 + int (sum_list (map (row_cells cc) rws)) \<le> 2147483647"
    using assms unfolding m by (simp add: encoded_cells_def split: if_splits)
  then show "cc < 2 ^ 31" using assms(2) by simp
  have "int (length rws) < 2147483648" using a rows_le_cells[of rws cc] assms(2) by linarith
  then have "length rws < 2147483648" by linarith
  then show "length rws < 2 ^ 31" by simp
qed

lemma encoded_cells_stepping:
  assumes "ac_term_count ac = 0"
    and "encoded_cells (sqlite3_column_count (ac_statement ac)) rws nr \<le> INT_MAX"
  shows "term_count (fst (stepping_u (sqlite3_column_count (ac_statement ac)) rws
           (encode_begin_u ac w))) \<le> INT_MAX"
  using assms
  by (simp add: term_count_stepping_u term_count_encode_begin_u encoded_cells_def split: if_splits)

lemma sql_exec_async_rows:
  assumes "fresh w" "\<not> crashed w" "ac_term_count ac = 0" "ac_row_count ac = 0"
    and "0 < sqlite3_column_count (ac_statement ac)"
    and "step_final (ac_statement ac) = SQLITE_DONE"
    and "encoded_cells (sqlite3_column_count (ac_statement ac)) (step_rows (ac_statement ac))
           (step_final (ac_statement ac)) \<le> INT_MAX"
  shows "\<exists>ac' w' l rs fs bs.
     sql_exec_async ac w = (ac', w') \<and>
     list_all2 (row_slots (sqlite3_column_count (ac_statement ac))) (step_rows (ac_statement ac)) rs \<and>
     inv l w' (begin_slots (ac_statement ac) w @ concat rs @
               reply_tail (ac_statement ac) (int (length (step_rows (ac_statement ac))))) fs bs \<and>
     ac_dataset ac' = dataset l \<and> ac_term_count ac' = term_count l \<and>
     ac_row_count ac' = int (length (step_rows (ac_statement ac))) \<and>
     kept w w' \<and>
     (rows_in_place (sqlite3_column_count (ac_statement ac)) (step_rows (ac_statement ac))
        (encode_begin ac w) \<longrightarrow>
      list_all (whole (sqlite3_column_count (ac_statement ac))) (step_rows (ac_statement ac)) \<longrightarrow>
        (\<forall>st. driver_term (heap w') (concat rs) st
              = Some (rev (map (row_term (sqlite3_column_count (ac_statement ac)))
                            (step_rows (ac_statement ac))) @ st)))"
proof -
  let ?st = "ac_statement ac"
  let ?cc = "sqlite3_column_count ?st"
  have b: "sql_exec_async ac w = sql_exec_async_u ac w"
    using assms(3,4,7) by (rule sql_exec_async_bounded)
  have rip: "rows_in_place ?cc (step_rows ?st) (encode_begin ac w)
             = rows_in_place_u ?cc (step_rows ?st) (encode_begin_u ac w)"
    by (rule stepping_bounded(3)[OF assms(3,4) encoded_cells_stepping[OF assms(3,7)]])
  obtain ac' w' l rs fs bs where run: "sql_exec_async_u ac w = (ac', w')"
    and rs: "list_all2 (row_slots ?cc) (step_rows ?st) rs"
    and i: "inv l w' (begin_slots ?st w @ concat rs @
               reply_tail ?st (ac_row_count ac + int (length (step_rows ?st)))) fs bs"
    and a: "ac_dataset ac' = dataset l" "ac_term_count ac' = term_count l" "owns ac' l"
    and rc: "row_count l = ac_row_count ac + int (length (step_rows ?st))"
    and k: "kept w w'"
    and d: "rows_in_place_u ?cc (step_rows ?st) (encode_begin_u ac w) \<longrightarrow>
        list_all (whole ?cc) (step_rows ?st) \<longrightarrow>
        (\<forall>stk. driver_term (heap w') (concat rs) stk
              = Some (rev (map (row_term ?cc) (step_rows ?st)) @ stk))"
    using sql_exec_async_done[OF assms(1,2,3,6)] by blast
  have i': "inv l w' (begin_slots ?st w @ concat rs @
               reply_tail ?st (int (length (step_rows ?st)))) fs bs"
    using i assms(4) by simp
  have rc': "ac_row_count ac' = int (length (step_rows ?st))"
    using a(3) rc assms(4) by (simp add: owns_def)
  show ?thesis
    unfolding b rip run
    using rs i' a(1,2) rc' k d by blast
qed

lemma sql_exec_rows_reply:
  assumes "fresh w" "\<not> crashed w" "db (drv w) command = Compiled (Some p)"
    and "column_names p \<noteq> []" "final p = SQLITE_DONE"
    and "encoded_cells (int (length (column_names p))) (rows p) (final p) \<le> INT_MAX"
    and "rows_in_place (int (length (column_names p))) (rows p)
           (encode_begin (new_command (Suc (brk w)) (Some (prepared (brk w) p))) (dispatched w))"
    and "list_all (\<lambda>row. length row = length (column_names p) \<and>
           list_all (\<lambda>c. c \<noteq> SQLITE_NULL \<and> fits_int c) row) (rows p)"
  shows "sent (snd (sql_exec command w))
         = sent w @ [(port (drv w),
             ETuple [EPort (port (drv w)),
               elist [ETuple [EAtom ''columns'', elist (map EAtom (column_names p))],
                      ETuple [EAtom ''rows'',
                        elist (map (\<lambda>row. ETuple (concat (map cell_terms row))) (rows p))]]])]"
proof -
  let ?st = "Some (prepared (brk w) p)"
  let ?ac = "new_command (Suc (brk w)) ?st"
  let ?w = "dispatched w"
  let ?cc = "sqlite3_column_count ?st"
  have st: "ac_statement ?ac = ?st" "ac_row_count ?ac = 0" "ac_term_count ?ac = 0"
    by (simp_all add: new_command_def)
  have pre: "fresh ?w" "\<not> crashed ?w" "ac_term_count ?ac = 0" "ac_row_count ?ac = 0"
    "0 < sqlite3_column_count (ac_statement ?ac)"
    "step_final (ac_statement ?ac) = SQLITE_DONE"
    "encoded_cells (sqlite3_column_count (ac_statement ?ac)) (step_rows (ac_statement ?ac))
           (step_final (ac_statement ?ac)) \<le> INT_MAX"
    using assms(1,2,4,5,6) by (simp_all add: dispatched_facts new_command_def)
  have lens: "int (length (column_names p)) < 2 ^ 31" "length (rows p) < 2 ^ 31"
    using encoded_cells_bounds[OF assms(6)] assms(4) by simp_all
  have nr: "rows_in_place ?cc (step_rows ?st) (encode_begin ?ac ?w)"
    using assms(7) by simp
  have wh: "list_all (whole ?cc) (step_rows ?st)"
    using assms(4,8) lens by (auto simp: list_all_iff whole_def cells_whole_row)
  obtain ac' w' l rs fs bs where run: "sql_exec_async ?ac ?w = (ac', w')"
    and i: "inv l w' (begin_slots ?st ?w @ concat rs @
               reply_tail ?st (int (length (step_rows ?st)))) fs bs"
    and a: "ac_dataset ac' = dataset l" "ac_term_count ac' = term_count l"
    and k: "kept ?w w'"
    and d: "\<forall>stk. driver_term (heap w') (concat rs) stk
              = Some (rev (map (row_term ?cc) (step_rows ?st)) @ stk)"
    using sql_exec_async_rows[OF pre] nr wh unfolding st by (auto simp del: statement_simps)
  have rt: "map (row_term ?cc) (step_rows ?st)
            = map (\<lambda>row. ETuple (concat (map cell_terms row))) (rows p)"
    using assms(8) by (simp add: row_term_def cells_whole_row list_all_iff)
  have dec: "decode (heap w') (begin_slots ?st ?w @ concat rs @
               reply_tail ?st (int (length (map (row_term ?cc) (step_rows ?st)))))
         = Some (ETuple [EPort (port (drv ?w)),
                   elist [ETuple [EAtom ''columns'', elist (column_atoms ?st)],
                          ETuple [EAtom ''rows'', elist (map (row_term ?cc) (step_rows ?st))]]])"
    by (rule decode_rows_reply) (use assms(4) lens d in simp_all)
  have ne: "begin_slots ?st ?w @ concat rs @ reply_tail ?st (int (length (step_rows ?st))) \<noteq> []"
    by (simp add: begin_slots_def)
  have dk: "drv w' = drv w" "sent w' = sent w"
    using k by (simp_all add: kept_def dispatched_facts)
  have "sent (ready_async ac' w')
        = sent w' @ [(port (drv w'), ETuple [EPort (port (drv ?w)),
                   elist [ETuple [EAtom ''columns'', elist (column_atoms ?st)],
                          ETuple [EAtom ''rows'',
                            elist (map (\<lambda>row. ETuple (concat (map cell_terms row))) (rows p))]]])]"
    using output_inv[OF i ne a] dec[unfolded rt] by simp
  then show ?thesis
    unfolding sql_exec_compiled[OF assms(3)] run
    using dk by (simp add: column_atoms_Some dispatched_facts)
qed

lemma encoded_cells_status: "encoded_cells 0 [] SQLITE_DONE \<le> INT_MAX"
  by (simp add: encoded_cells_def INT_MAX_def)

lemma sql_exec_status_reply:
  assumes "fresh w" "\<not> crashed w" "db (drv w) command = Compiled (Some p)"
    and "column_names p = []" "rows p = []" "final p = SQLITE_DONE"
  shows "sent (snd (sql_exec command w))
         = sent w @ [(port (drv w),
             ETuple [EPort (port (drv w)),
               (if strcasestr (sql p) ''INSERT''
                then ETuple [EAtom ''id'', EInt (sint (last_insert_rowid p))]
                else ETuple [EAtom ''ok'', EInt SQLITE_DONE])])]"
proof -
  let ?st = "Some (prepared (brk w) p)"
  let ?ac = "new_command (Suc (brk w)) ?st"
  let ?w = "dispatched w"
  have pre: "fresh ?w" "\<not> crashed ?w" "ac_term_count ?ac = 0" "step_final (ac_statement ?ac) = SQLITE_DONE"
    using assms(1,2,6) by (simp_all add: dispatched_facts new_command_def)
  have st: "ac_statement ?ac = ?st" "ac_row_count ?ac = 0" by (simp_all add: new_command_def)
  have b: "sql_exec_async ?ac ?w = sql_exec_async_u ?ac ?w"
    by (rule sql_exec_async_bounded)
       (use assms(4,5,6) encoded_cells_status in \<open>simp_all add: new_command_def\<close>)
  obtain ac' w' l rs fs bs where run: "sql_exec_async_u ?ac ?w = (ac', w')"
    and rs: "list_all2 (row_slots (sqlite3_column_count ?st)) (step_rows ?st) rs"
    and i: "inv l w' (begin_slots ?st ?w @ concat rs @
               reply_tail ?st (ac_row_count ?ac + int (length (step_rows ?st)))) fs bs"
    and a: "ac_dataset ac' = dataset l" "ac_term_count ac' = term_count l"
    and k: "kept ?w w'"
    using sql_exec_async_done[OF pre, unfolded st(1)] by blast
  have rs0: "rs = []" using rs assms(5) by simp
  have i': "inv l w' (begin_slots ?st ?w @ reply_tail ?st 0) fs bs"
    using i rs0 assms(5) st(2) by simp
  have dec: "decode (heap w') (begin_slots ?st ?w @ reply_tail ?st 0)
         = Some (ETuple [EPort (port (drv ?w)),
                   (if strcasestr (sql p) ''INSERT''
                    then ETuple [EAtom ''id'', EInt (sint (sqlite3_last_insert_rowid ?st))]
                    else ETuple [EAtom ''ok'', EInt SQLITE_DONE])])"
    by (rule decode_status_reply) (use assms(4) in simp_all)
  have ne: "begin_slots ?st ?w @ reply_tail ?st 0 \<noteq> []"
    by (simp add: begin_slots_def)
  have dk: "drv w' = drv w" "sent w' = sent w"
    using k by (simp_all add: kept_def dispatched_facts)
  show ?thesis
    unfolding sql_exec_compiled[OF assms(3)] b run
    using output_inv[OF i' ne a] dec dk by (simp add: dispatched_facts)
qed

lemma row_slots_null: "row_slots 1 [SQLITE_NULL] r \<longleftrightarrow> r = [Tag ERL_DRV_TUPLE, Num 1]"
  by (auto simp: row_slots_def cells_def column_def)

lemma select_null_run:
  assumes "fresh w" "\<not> crashed w"
  shows "\<exists>ac' w'.
     sql_exec_async (new_command a (Some (prepared h demo_null))) w = (ac', w') \<and>
     handed (ac', w')
       = [Tag ERL_DRV_PORT, Port (port (drv w)),
          Tag ERL_DRV_ATOM, Atom ''columns'', Tag ERL_DRV_ATOM, Atom ''NULL'',
          Tag ERL_DRV_NIL, Tag ERL_DRV_LIST, Num 2, Tag ERL_DRV_TUPLE, Num 2,
          Tag ERL_DRV_ATOM, Atom ''rows'',
          Tag ERL_DRV_TUPLE, Num 1,
          Tag ERL_DRV_NIL, Tag ERL_DRV_LIST, Num 2, Tag ERL_DRV_TUPLE, Num 2,
          Tag ERL_DRV_NIL, Tag ERL_DRV_LIST, Num 3, Tag ERL_DRV_TUPLE, Num 2] \<and>
     ac_row_count ac' = 1 \<and>
     decode (heap w') (handed (ac', w')) = None \<and>
     sent (ready_async ac' w') = sent w"
proof -
  let ?st = "Some (prepared h demo_null)"
  let ?ac = "new_command a ?st"
  let ?xs = "[Tag ERL_DRV_PORT, Port (port (drv w)),
          Tag ERL_DRV_ATOM, Atom ''columns'', Tag ERL_DRV_ATOM, Atom ''NULL'',
          Tag ERL_DRV_NIL, Tag ERL_DRV_LIST, Num 2, Tag ERL_DRV_TUPLE, Num 2,
          Tag ERL_DRV_ATOM, Atom ''rows'',
          Tag ERL_DRV_TUPLE, Num 1,
          Tag ERL_DRV_NIL, Tag ERL_DRV_LIST, Num 2, Tag ERL_DRV_TUPLE, Num 2,
          Tag ERL_DRV_NIL, Tag ERL_DRV_LIST, Num 3, Tag ERL_DRV_TUPLE, Num 2]"
  have pre: "ac_term_count ?ac = 0" "ac_row_count ?ac = 0"
    "0 < sqlite3_column_count (ac_statement ?ac)"
    "step_final (ac_statement ?ac) = SQLITE_DONE"
    "encoded_cells (sqlite3_column_count (ac_statement ?ac)) (step_rows (ac_statement ?ac))
           (step_final (ac_statement ?ac)) \<le> INT_MAX"
    by (simp_all add: new_command_def demo_null_def encoded_cells_def row_cells_def cells_def
          column_def INT_MAX_def)
  have st: "ac_statement ?ac = ?st" by (simp add: new_command_def)
  obtain ac' w' l rs fs bs where run: "sql_exec_async ?ac w = (ac', w')"
    and rs: "list_all2 (row_slots (sqlite3_column_count ?st)) (step_rows ?st) rs"
    and i: "inv l w' (begin_slots ?st w @ concat rs @
               reply_tail ?st (int (length (step_rows ?st)))) fs bs"
    and a: "ac_dataset ac' = dataset l" "ac_term_count ac' = term_count l"
    and rc: "ac_row_count ac' = int (length (step_rows ?st))"
    and k: "kept w w'"
    using sql_exec_async_rows[OF assms pre] unfolding st by (auto simp del: statement_simps)
  have rs1: "rs = [[Tag ERL_DRV_TUPLE, Num 1]]"
    using rs by (simp add: demo_null_def list_all2_Cons1 row_slots_null)
  have xs: "begin_slots ?st w @ concat rs @ reply_tail ?st (int (length (step_rows ?st))) = ?xs"
    unfolding rs1
    by (simp add: begin_slots_def header_slots_def column_slots_def reply_tail_def demo_null_def
          sqlite3_column_name_def)
  note i' = i[unfolded xs]
  have hd: "handed (ac', w') = ?xs" by (rule handed_inv[OF i' a])
  have dec: "decode (heap w') ?xs = None"
    by (simp add: decode_def)
  have "sent (ready_async ac' w') = sent w'"
    using output_inv[OF i' _ a] dec by simp
  then have s: "sent (ready_async ac' w') = sent w" using k by (simp add: kept_def)
  show ?thesis
  proof (intro exI[of _ ac'] exI[of _ w'] conjI)
    show "sql_exec_async ?ac w = (ac', w')" by (rule run)
    show "handed (ac', w') = ?xs" by (rule hd)
    show "ac_row_count ac' = 1" using rc by (simp add: demo_null_def)
    show "decode (heap w') (handed (ac', w')) = None" unfolding hd by (rule dec)
    show "sent (ready_async ac' w') = sent w" by (rule s)
  qed
qed

lemma stepping_append:
  "stepping cc (xs @ ys) s = stepping cc ys (stepping cc xs s)"
  by (induction xs arbitrary: s) simp_all

lemma stepping_u_append:
  "stepping_u cc (xs @ ys) s = stepping_u cc ys (stepping_u cc xs s)"
  by (induction xs arbitrary: s) simp_all

lemma length_begin_slots:
  "int (length (begin_slots statement w))
   = 2 + (if 0 < sqlite3_column_count statement then 2 * sqlite3_column_count statement + 9 else 0)"
  by (simp add: begin_slots_def header_slots_def)

lemma encode_null: "encode_column SQLITE_NULL s = s"
  by (cases s) (simp add: encode_column_def)

lemma length_row_slots: "row_slots cc row r \<Longrightarrow> length r = row_cells cc row"
  by (auto simp: row_slots_def row_cells_def)

lemma length_rows_slots:
  "list_all2 (row_slots cc) rws rs \<Longrightarrow> length (concat rs) = sum_list (map (row_cells cc) rws)"
  by (induction rule: list_all2_induct) (simp_all add: length_row_slots)

lemma select_null_is_not_delivered:
  "sent (snd (sql_exec ''SELECT NULL''
                (start_world (demo_drv (\<lambda>c. Compiled (Some demo_null))) (\<lambda>k. False)))) = []"
proof -
  let ?w = "start_world (demo_drv (\<lambda>c. Compiled (Some demo_null))) (\<lambda>k. False)"
  have h: "db (drv ?w) ''SELECT NULL'' = Compiled (Some demo_null)"
    by (simp add: start_world_def demo_drv_def)
  have f: "fresh (dispatched ?w)" "\<not> crashed (dispatched ?w)"
    by (simp_all add: dispatched_facts)
  obtain ac' w' where run: "sql_exec_async (new_command (Suc (brk ?w)) (Some (prepared (brk ?w) demo_null)))
                              (dispatched ?w) = (ac', w')"
    and s: "sent (ready_async ac' w') = sent (dispatched ?w)"
    using select_null_run[OF f, where a = "Suc (brk ?w)" and h = "brk ?w"] by blast
  show ?thesis
    unfolding sql_exec_compiled[OF h] run using s
    by (simp add: dispatched_facts start_world_def)
qed

lemma c_string_not_an_error: "c_string ''not an error''"
  by (simp add: c_string_def)


lemma cells_in_place_never:
  assumes "inv l w xs fs bs" "\<forall>k. \<not> relocates w k"
  shows "cells_in_place_u cs (l, w)"
  using assms
proof (induction cs arbitrary: l w xs fs bs)
  case Nil
  show ?case by simp
next
  case (Cons c cs)
  obtain l' w' vals where e: "encode_column_u c (l, w) = (l', w')"
    and s: "stepped (cell_in_place c (l, w)) l w xs l' w' vals"
    using encode_column_step[OF Cons.prems(1)] by blast
  obtain fs' bs' where i': "inv l' w' (xs @ vals) fs' bs'" using stepped_inv[OF s] by blast
  have r: "\<forall>k. \<not> relocates w' k" using stepped_relocates[OF s] Cons.prems(2) by simp
  have "cell_in_place c (l, w)"
    using Cons.prems(2) by (simp add: cell_in_place_def split: cell.splits)
  then show ?case using Cons.IH[OF i' r] e by simp
qed

lemma rows_in_place_never:
  assumes "inv l w xs fs bs" "\<forall>k. \<not> relocates w k"
  shows "rows_in_place_u cc rws (l, w)"
  using assms
proof (induction rws arbitrary: l w xs fs bs)
  case Nil
  show ?case by simp
next
  case (Cons r rws)
  obtain l' w' vals where e: "encode_row_u cc r (l, w) = (l', w')"
    and s: "stepped (cells_in_place_u (cells cc r) (l, w)) l w xs l' w' vals"
    using encode_row_step[OF Cons.prems(1)] by blast
  obtain fs' bs' where i': "inv l' w' (xs @ vals) fs' bs'" using stepped_inv[OF s] by blast
  have r: "\<forall>k. \<not> relocates w' k" using stepped_relocates[OF s] Cons.prems(2) by simp
  show ?case
    using Cons.IH[OF i' r] e cells_in_place_never[OF Cons.prems] by simp
qed

lemma rows_in_place_if_never_moved:
  assumes "fresh w" "\<not> crashed w" "ac_term_count ac = 0" "ac_row_count ac = 0"
    and "\<forall>k. \<not> relocates w k"
    and "encoded_cells (sqlite3_column_count (ac_statement ac)) rws nr \<le> INT_MAX"
  shows "rows_in_place (sqlite3_column_count (ac_statement ac)) rws (encode_begin ac w)"
proof -
  obtain l w' fs bs where e: "encode_begin_u ac w = (l, w')"
    and i: "inv l w' (begin_slots (ac_statement ac) w) fs bs" and f: "frame w w'"
    using encode_begin_step[OF assms(1,2,3)] by blast
  have r: "\<forall>k. \<not> relocates w' k" using f assms(5) by (simp add: frame_def)
  show ?thesis
    unfolding stepping_bounded(3)[OF assms(3,4) encoded_cells_stepping[OF assms(3,6)]] e
    by (rule rows_in_place_never[OF i r])
qed

section \<open>The properties\<close>

text \<open>
  C1, as the code has it. A statement with columns, stepped to \<open>SQLITE_DONE\<close>, whose
  rows have a value in every column, is answered with the pair of the port and a
  two-element list, \<open>{Port, [{columns, [ColAtoms]}, {rows, [RowTuples]}]}\<close>; there is no
  \<open>ok\<close> atom in it. The term buffer may move each time \<open>realloc\<close> grows it. What is
  assumed of the allocator is that the float pool, once allocated, is grown in place
  (\<open>rows_in_place\<close>: at every float cell after the first, the \<open>realloc\<close> of the pool
  returns the address it was given; see C10), and of the result that the slots written
  number at most \<open>INT_MAX\<close>; an allocator that never moves a block meets the first
  (lemma \<open>rows_in_place_if_never_moved\<close>). A NULL cell is excluded because it writes
  no slot while its row's tuple header still counts it: the buffer for \<open>SELECT NULL\<close> is
  no term and nothing is delivered (lemma \<open>select_null_is_not_delivered\<close>).
\<close>

theorem rows_reply_is_port_and_list:
  assumes "fresh w" "\<not> crashed w" "db (drv w) command = Compiled (Some p)"
    and "column_names p \<noteq> []" "final p = SQLITE_DONE"
    and "encoded_cells (int (length (column_names p))) (rows p) (final p) \<le> INT_MAX"
    and "rows_in_place (int (length (column_names p))) (rows p)
           (encode_begin (new_command (Suc (brk w)) (Some (prepared (brk w) p))) (dispatched w))"
    and "\<forall>row\<in>set (rows p). length row = length (column_names p) \<and>
           (\<forall>c\<in>set row. c \<noteq> SQLITE_NULL \<and> fits_int c)"
  shows "sent (snd (sql_exec command w))
         = sent w @ [(port (drv w),
             ETuple [EPort (port (drv w)),
               elist [ETuple [EAtom ''columns'', elist (map EAtom (column_names p))],
                      ETuple [EAtom ''rows'',
                        elist (map (\<lambda>row. ETuple (concat (map cell_terms row))) (rows p))]]])]"
proof -
  have "list_all (\<lambda>row. length row = length (column_names p) \<and>
           list_all (\<lambda>c. c \<noteq> SQLITE_NULL \<and> fits_int c) row) (rows p)"
    using assms(8) by (simp add: list_all_iff)
  with assms(1-7) show ?thesis by (rule sql_exec_rows_reply)
qed

theorem rows_reply_is_port_and_list_witness:
  "fresh (start_world (demo_drv (\<lambda>c. Compiled (Some demo_select))) (\<lambda>k. True)) \<and>
   \<not> crashed (start_world (demo_drv (\<lambda>c. Compiled (Some demo_select))) (\<lambda>k. True)) \<and>
   db (drv (start_world (demo_drv (\<lambda>c. Compiled (Some demo_select))) (\<lambda>k. True))) ''SELECT 42''
     = Compiled (Some demo_select) \<and>
   column_names demo_select \<noteq> [] \<and> final demo_select = SQLITE_DONE \<and>
   encoded_cells (int (length (column_names demo_select))) (rows demo_select) (final demo_select)
     \<le> INT_MAX \<and>
   rows_in_place (int (length (column_names demo_select))) (rows demo_select)
     (encode_begin (new_command (Suc (brk (start_world (demo_drv (\<lambda>c. Compiled (Some demo_select))) (\<lambda>k. True))))
         (Some (prepared (brk (start_world (demo_drv (\<lambda>c. Compiled (Some demo_select))) (\<lambda>k. True))) demo_select)))
       (dispatched (start_world (demo_drv (\<lambda>c. Compiled (Some demo_select))) (\<lambda>k. True)))) \<and>
   list_all (\<lambda>row. length row = length (column_names demo_select) \<and>
           list_all (\<lambda>c. c \<noteq> SQLITE_NULL \<and> fits_int c) row) (rows demo_select) \<and>
   sent (snd (sql_exec ''SELECT 42''
                (start_world (demo_drv (\<lambda>c. Compiled (Some demo_select))) (\<lambda>k. True))))
     = [(7, ETuple [EPort 7,
               elist [ETuple [EAtom ''columns'', elist [EAtom ''42'']],
                      ETuple [EAtom ''rows'', elist [ETuple [EInt 42]]]]])] \<and>
   db (drv (start_world (demo_drv (\<lambda>c. Compiled (Some demo_floats))) (\<lambda>k. False)))
      ''SELECT x FROM t'' = Compiled (Some demo_floats) \<and>
   column_names demo_floats \<noteq> [] \<and> final demo_floats = SQLITE_DONE \<and>
   encoded_cells (int (length (column_names demo_floats))) (rows demo_floats) (final demo_floats)
     \<le> INT_MAX \<and>
   rows_in_place (int (length (column_names demo_floats))) (rows demo_floats)
     (encode_begin (new_command (Suc (brk (start_world (demo_drv (\<lambda>c. Compiled (Some demo_floats))) (\<lambda>k. False))))
         (Some (prepared (brk (start_world (demo_drv (\<lambda>c. Compiled (Some demo_floats))) (\<lambda>k. False))) demo_floats)))
       (dispatched (start_world (demo_drv (\<lambda>c. Compiled (Some demo_floats))) (\<lambda>k. False)))) \<and>
   list_all (\<lambda>row. length row = length (column_names demo_floats) \<and>
           list_all (\<lambda>c. c \<noteq> SQLITE_NULL \<and> fits_int c) row) (rows demo_floats) \<and>
   sent (snd (sql_exec ''SELECT x FROM t''
                (start_world (demo_drv (\<lambda>c. Compiled (Some demo_floats))) (\<lambda>k. False))))
     = [(7, ETuple [EPort 7,
               elist [ETuple [EAtom ''columns'', elist [EAtom ''x'']],
                      ETuple [EAtom ''rows'',
                        elist [ETuple [EFloat 0x3FF8000000000000],
                               ETuple [EFloat 0x4004000000000000]]]]])]"
proof -
  let ?w = "start_world (demo_drv (\<lambda>c. Compiled (Some demo_select))) (\<lambda>k. True)"
  let ?f = "start_world (demo_drv (\<lambda>c. Compiled (Some demo_floats))) (\<lambda>k. False)"
  let ?ac = "new_command (Suc (brk ?f)) (Some (prepared (brk ?f) demo_floats))"
  have h: "db (drv ?w) ''SELECT 42'' = Compiled (Some demo_select)"
    "column_names demo_select \<noteq> []" "final demo_select = SQLITE_DONE"
    "encoded_cells (int (length (column_names demo_select))) (rows demo_select) (final demo_select)
       \<le> INT_MAX"
    "rows_in_place (int (length (column_names demo_select))) (rows demo_select)
       (encode_begin (new_command (Suc (brk ?w)) (Some (prepared (brk ?w) demo_select))) (dispatched ?w))"
    "\<forall>row\<in>set (rows demo_select). length row = length (column_names demo_select) \<and>
           (\<forall>c\<in>set row. c \<noteq> SQLITE_NULL \<and> fits_int c)"
    by (simp_all add: demo_select_def cells_def column_def cell_in_place_def encoded_cells_def
          row_cells_def INT_MAX_def start_world_def demo_drv_def)
  have b: "encoded_cells (int (length (column_names demo_floats))) (rows demo_floats)
             (final demo_floats) \<le> INT_MAX"
    by (simp add: demo_floats_def cells_def column_def encoded_cells_def row_cells_def INT_MAX_def)
  have p: "rows_in_place (sqlite3_column_count (ac_statement ?ac)) (rows demo_floats)
             (encode_begin ?ac (dispatched ?f))"
  proof (rule rows_in_place_if_never_moved[where nr = "final demo_floats"])
    show "fresh (dispatched ?f)" by (simp add: dispatched_facts)
    show "\<not> crashed (dispatched ?f)" by (simp add: dispatched_facts)
    show "ac_term_count ?ac = 0" "ac_row_count ?ac = 0" by (simp_all add: new_command_def)
    show "\<forall>k. \<not> relocates (dispatched ?f) k"
      unfolding dispatched_facts by (simp add: start_world_def)
    show "encoded_cells (sqlite3_column_count (ac_statement ?ac)) (rows demo_floats)
            (final demo_floats) \<le> INT_MAX"
      using b by (simp add: new_command_def)
  qed
  have g: "db (drv ?f) ''SELECT x FROM t'' = Compiled (Some demo_floats)"
    "column_names demo_floats \<noteq> []" "final demo_floats = SQLITE_DONE"
    "encoded_cells (int (length (column_names demo_floats))) (rows demo_floats) (final demo_floats)
       \<le> INT_MAX"
    "rows_in_place (int (length (column_names demo_floats))) (rows demo_floats)
       (encode_begin ?ac (dispatched ?f))"
    "\<forall>row\<in>set (rows demo_floats). length row = length (column_names demo_floats) \<and>
           (\<forall>c\<in>set row. c \<noteq> SQLITE_NULL \<and> fits_int c)"
    using b p by (simp_all add: demo_floats_def start_world_def demo_drv_def new_command_def)
  have v: "sqlite3_column_int 42 = 42" by (simp add: sqlite3_column_int_def)
  have s: "sent ?w = []" "port (drv ?w) = 7" "sent ?f = []" "port (drv ?f) = 7"
    by (simp_all add: start_world_def demo_drv_def)
  have c1: "sent (snd (sql_exec ''SELECT 42'' ?w))
     = [(7, ETuple [EPort 7,
               elist [ETuple [EAtom ''columns'', elist [EAtom ''42'']],
                      ETuple [EAtom ''rows'', elist [ETuple [EInt 42]]]]])]"
    using rows_reply_is_port_and_list[OF fresh_start_world crashed_start_world h]
    by (simp add: demo_select_def v s)
  have c2: "sent (snd (sql_exec ''SELECT x FROM t'' ?f))
     = [(7, ETuple [EPort 7,
               elist [ETuple [EAtom ''columns'', elist [EAtom ''x'']],
                      ETuple [EAtom ''rows'',
                        elist [ETuple [EFloat 0x3FF8000000000000],
                               ETuple [EFloat 0x4004000000000000]]]]])]"
    using rows_reply_is_port_and_list[OF fresh_start_world crashed_start_world g]
    by (simp add: demo_floats_def s)
  have l1: "list_all (\<lambda>row. length row = length (column_names demo_select) \<and>
           list_all (\<lambda>c. c \<noteq> SQLITE_NULL \<and> fits_int c) row) (rows demo_select)"
    using h(6) by (simp add: list_all_iff)
  have l2: "list_all (\<lambda>row. length row = length (column_names demo_floats) \<and>
           list_all (\<lambda>c. c \<noteq> SQLITE_NULL \<and> fits_int c) row) (rows demo_floats)"
    using g(6) by (simp add: list_all_iff)
  show ?thesis
    using fresh_start_world[of "demo_drv (\<lambda>c. Compiled (Some demo_select))" "\<lambda>k. True"]
      crashed_start_world[of "demo_drv (\<lambda>c. Compiled (Some demo_select))" "\<lambda>k. True"]
      h(1-5) l1 c1 g(1-5) l2 c2
    by blast
qed

theorem select_42_has_no_ok_tag:
  "sent (snd (sql_exec ''SELECT 42''
                (start_world (demo_drv (\<lambda>c. Compiled (Some demo_select))) (\<lambda>k. False))))
     \<noteq> [(7, ETuple [EPort 7,
               ETuple [EAtom ''ok'', ETuple [EAtom ''columns'', elist [EAtom ''42'']],
                       ETuple [EAtom ''rows'', elist [ETuple [EInt 42]]]]])]"
proof -
  let ?w = "start_world (demo_drv (\<lambda>c. Compiled (Some demo_select))) (\<lambda>k. False)"
  have h: "db (drv ?w) ''SELECT 42'' = Compiled (Some demo_select)"
    "column_names demo_select \<noteq> []" "final demo_select = SQLITE_DONE"
    "encoded_cells (int (length (column_names demo_select))) (rows demo_select) (final demo_select)
       \<le> INT_MAX"
    "rows_in_place (int (length (column_names demo_select))) (rows demo_select)
       (encode_begin (new_command (Suc (brk ?w)) (Some (prepared (brk ?w) demo_select))) (dispatched ?w))"
    "list_all (\<lambda>row. length row = length (column_names demo_select) \<and>
           list_all (\<lambda>c. c \<noteq> SQLITE_NULL \<and> fits_int c) row) (rows demo_select)"
    by (simp_all add: demo_select_def cells_def column_def cell_in_place_def encoded_cells_def
          row_cells_def INT_MAX_def start_world_def demo_drv_def)
  show ?thesis
    unfolding sql_exec_rows_reply[OF fresh_start_world crashed_start_world h]
    by (simp add: elist_def)
qed

text \<open>
  C2, as the code has it. A statement without columns or rows whose text contains
  \<open>INSERT\<close> in any case, stepped to \<open>SQLITE_DONE\<close>, is answered
  \<open>{Port, {id, Rowid}}\<close>, the rowid being the connection's 64-bit
  \<open>sqlite3_last_insert_rowid\<close>; there is no \<open>ok\<close> atom around it.
\<close>

theorem insert_reply_is_port_and_id:
  assumes "fresh w" "\<not> crashed w" "db (drv w) command = Compiled (Some p)"
    and "column_names p = []" "rows p = []" "final p = SQLITE_DONE"
    and "strcasestr (sql p) ''INSERT''"
  shows "sent (snd (sql_exec command w))
         = sent w @ [(port (drv w),
             ETuple [EPort (port (drv w)),
                     ETuple [EAtom ''id'', EInt (sint (last_insert_rowid p))]])]"
  using sql_exec_status_reply[OF assms(1-6)] assms(7) by simp

theorem insert_reply_is_port_and_id_witness:
  "fresh (start_world (demo_drv (\<lambda>c. Compiled (Some demo_insert))) (\<lambda>k. True)) \<and>
   \<not> crashed (start_world (demo_drv (\<lambda>c. Compiled (Some demo_insert))) (\<lambda>k. True)) \<and>
   db (drv (start_world (demo_drv (\<lambda>c. Compiled (Some demo_insert))) (\<lambda>k. True)))
      ''insert into t values (1)'' = Compiled (Some demo_insert) \<and>
   column_names demo_insert = [] \<and> rows demo_insert = [] \<and> final demo_insert = SQLITE_DONE \<and>
   strcasestr (sql demo_insert) ''INSERT'' \<and>
   sent (snd (sql_exec ''insert into t values (1)''
                (start_world (demo_drv (\<lambda>c. Compiled (Some demo_insert))) (\<lambda>k. True))))
     = [(7, ETuple [EPort 7, ETuple [EAtom ''id'', EInt 5]])]"
proof -
  let ?w = "start_world (demo_drv (\<lambda>c. Compiled (Some demo_insert))) (\<lambda>k. True)"
  have h: "db (drv ?w) ''insert into t values (1)'' = Compiled (Some demo_insert)"
    "column_names demo_insert = []" "rows demo_insert = []" "final demo_insert = SQLITE_DONE"
    "strcasestr (sql demo_insert) ''INSERT''"
    using strcasestr_insert by (simp_all add: demo_insert_def start_world_def demo_drv_def)
  have v: "last_insert_rowid demo_insert = 5" by (simp add: demo_insert_def)
  have s: "sent ?w = []" "port (drv ?w) = 7" by (simp_all add: start_world_def demo_drv_def)
  show ?thesis
    using h insert_reply_is_port_and_id[OF fresh_start_world crashed_start_world h]
    by (simp add: v s)
qed

theorem insert_reply_has_no_ok_tag:
  "sent (snd (sql_exec ''insert into t values (1)''
                (start_world (demo_drv (\<lambda>c. Compiled (Some demo_insert))) (\<lambda>k. True))))
     \<noteq> [(7, ETuple [EPort 7, ETuple [EAtom ''ok'', ETuple [EAtom ''id'', EInt 5]]])]"
proof -
  let ?w = "start_world (demo_drv (\<lambda>c. Compiled (Some demo_insert))) (\<lambda>k. True)"
  have h: "db (drv ?w) ''insert into t values (1)'' = Compiled (Some demo_insert)"
    "column_names demo_insert = []" "rows demo_insert = []" "final demo_insert = SQLITE_DONE"
    by (simp_all add: demo_insert_def start_world_def demo_drv_def)
  show ?thesis
    unfolding sql_exec_status_reply[OF fresh_start_world crashed_start_world h]
    by simp
qed

text \<open>
  C3, as the code has it. A statement without columns or rows whose text does not
  contain \<open>INSERT\<close>, stepped to \<open>SQLITE_DONE\<close>, is answered \<open>{Port, {ok, Code}}\<close>,
  where \<open>Code\<close> is the last result of \<open>sqlite3_step\<close> (101); there is no \<open>status\<close>
  atom.
\<close>

theorem plain_reply_is_port_and_ok:
  assumes "fresh w" "\<not> crashed w" "db (drv w) command = Compiled (Some p)"
    and "column_names p = []" "rows p = []" "final p = SQLITE_DONE"
    and "\<not> strcasestr (sql p) ''INSERT''"
  shows "sent (snd (sql_exec command w))
         = sent w @ [(port (drv w),
             ETuple [EPort (port (drv w)), ETuple [EAtom ''ok'', EInt (final p)]])]"
  using sql_exec_status_reply[OF assms(1-6)] assms(6,7) by simp

theorem plain_reply_is_port_and_ok_witness:
  "fresh (start_world (demo_drv (\<lambda>c. Compiled (Some demo_create))) (\<lambda>k. True)) \<and>
   \<not> crashed (start_world (demo_drv (\<lambda>c. Compiled (Some demo_create))) (\<lambda>k. True)) \<and>
   db (drv (start_world (demo_drv (\<lambda>c. Compiled (Some demo_create))) (\<lambda>k. True)))
      ''CREATE TABLE t (a)'' = Compiled (Some demo_create) \<and>
   column_names demo_create = [] \<and> rows demo_create = [] \<and> final demo_create = SQLITE_DONE \<and>
   \<not> strcasestr (sql demo_create) ''INSERT'' \<and>
   sent (snd (sql_exec ''CREATE TABLE t (a)''
                (start_world (demo_drv (\<lambda>c. Compiled (Some demo_create))) (\<lambda>k. True))))
     = [(7, ETuple [EPort 7, ETuple [EAtom ''ok'', EInt 101]])]"
proof -
  let ?w = "start_world (demo_drv (\<lambda>c. Compiled (Some demo_create))) (\<lambda>k. True)"
  have h: "db (drv ?w) ''CREATE TABLE t (a)'' = Compiled (Some demo_create)"
    "column_names demo_create = []" "rows demo_create = []" "final demo_create = SQLITE_DONE"
    "\<not> strcasestr (sql demo_create) ''INSERT''"
    using strcasestr_create by (simp_all add: demo_create_def start_world_def demo_drv_def)
  have v: "final demo_create = 101" by (simp add: demo_create_def SQLITE_DONE_def)
  have s: "sent ?w = []" "port (drv ?w) = 7" by (simp_all add: start_world_def demo_drv_def)
  show ?thesis
    using h plain_reply_is_port_and_ok[OF fresh_start_world crashed_start_world h]
    by (simp add: v s)
qed

theorem plain_reply_has_no_status_tag:
  "sent (snd (sql_exec ''CREATE TABLE t (a)''
                (start_world (demo_drv (\<lambda>c. Compiled (Some demo_create))) (\<lambda>k. True))))
     \<noteq> [(7, ETuple [EPort 7, ETuple [EAtom ''ok'', ETuple [EAtom ''status'', EInt 101]]])]"
proof -
  let ?w = "start_world (demo_drv (\<lambda>c. Compiled (Some demo_create))) (\<lambda>k. True)"
  have h: "db (drv ?w) ''CREATE TABLE t (a)'' = Compiled (Some demo_create)"
    "column_names demo_create = []" "rows demo_create = []" "final demo_create = SQLITE_DONE"
    by (simp_all add: demo_create_def start_world_def demo_drv_def)
  show ?thesis
    unfolding sql_exec_status_reply[OF fresh_start_world crashed_start_world h]
    by simp
qed

text \<open>
  C4. An integer cell is read with \<open>sqlite3_column_int\<close>, a C \<open>int\<close>: the cell
  \<open>4294967297 = 2^32 + 1\<close> is answered as \<open>1\<close>. (The rowid of an \<open>{id, Rowid}\<close> reply
  is a \<open>long long\<close> and keeps its 64 bits.)
\<close>

theorem integer_cell_is_cut_to_32_bits:
  "sent (snd (sql_exec ''SELECT 4294967297''
                (start_world (demo_drv (\<lambda>c. Compiled (Some demo_big))) (\<lambda>k. False))))
     = [(7, ETuple [EPort 7,
               elist [ETuple [EAtom ''columns'', elist [EAtom ''4294967297'']],
                      ETuple [EAtom ''rows'', elist [ETuple [EInt 1]]]]])]"
proof -
  let ?w = "start_world (demo_drv (\<lambda>c. Compiled (Some demo_big))) (\<lambda>k. False)"
  have h: "db (drv ?w) ''SELECT 4294967297'' = Compiled (Some demo_big)"
    "column_names demo_big \<noteq> []" "final demo_big = SQLITE_DONE"
    "encoded_cells (int (length (column_names demo_big))) (rows demo_big) (final demo_big)
       \<le> INT_MAX"
    "rows_in_place (int (length (column_names demo_big))) (rows demo_big)
       (encode_begin (new_command (Suc (brk ?w)) (Some (prepared (brk ?w) demo_big))) (dispatched ?w))"
    "list_all (\<lambda>row. length row = length (column_names demo_big) \<and>
           list_all (\<lambda>c. c \<noteq> SQLITE_NULL \<and> fits_int c) row) (rows demo_big)"
    by (simp_all add: demo_big_def cells_def column_def cell_in_place_def encoded_cells_def
          row_cells_def INT_MAX_def start_world_def demo_drv_def)
  have s: "sent ?w = []" "port (drv ?w) = 7" by (simp_all add: start_world_def demo_drv_def)
  show ?thesis
    unfolding sql_exec_rows_reply[OF fresh_start_world crashed_start_world h]
    by (simp add: demo_big_def column_int_big s)
qed

text \<open>
  C5. A row appends the slots of its cells and then a tuple header whose arity is
  \<open>column_count\<close>: 2 slots for an integer or a float cell, 4 for a text or blob cell,
  none for a NULL cell, whose case of the switch leaves the buffer, the pools and the
  counters as they were. This holds for a row after any rows stepped before it, as long
  as the slots written up to the end of the row, the headers included, number at most
  \<open>INT_MAX\<close>, so that no counter overflows.
\<close>

theorem null_cells_keep_row_arity:
  assumes "fresh w" "\<not> crashed w" "ac_term_count ac = 0" "ac_row_count ac = 0"
    and "int (length (begin_slots (ac_statement ac) w)) +
         int (sum_list (map (row_cells cc) (before @ [row]))) \<le> INT_MAX"
  shows "encode_column SQLITE_NULL s = s \<and>
         (\<exists>vals.
            buffer (encode_row cc row (stepping cc before (encode_begin ac w)))
              = buffer (stepping cc before (encode_begin ac w)) @ vals @
                [Tag ERL_DRV_TUPLE, Num (of_int cc)] \<and>
            length vals = sum_list (map slot_width (cells cc row))) \<and>
         \<not> crashed (snd (encode_row cc row (stepping cc before (encode_begin ac w))))"
proof -
  have tb: "term_count (fst (encode_begin_u ac w)) = int (length (begin_slots (ac_statement ac) w))"
    using assms(3) by (simp add: term_count_encode_begin_u length_begin_slots)
  have le2: "term_count (fst (stepping_u cc (before @ [row]) (encode_begin_u ac w))) \<le> INT_MAX"
    using assms(5) by (simp add: term_count_stepping_u tb)
  have le1: "term_count (fst (stepping_u cc before (encode_begin_u ac w))) \<le> INT_MAX"
    using assms(5) by (simp add: term_count_stepping_u tb)
  have e1: "stepping cc before (encode_begin ac w) = stepping_u cc before (encode_begin_u ac w)"
    by (rule stepping_bounded(1)[OF assms(3,4) le1])
  have e2: "stepping cc (before @ [row]) (encode_begin ac w)
            = stepping_u cc (before @ [row]) (encode_begin_u ac w)"
    by (rule stepping_bounded(1)[OF assms(3,4) le2])
  have e3: "encode_row cc row (stepping cc before (encode_begin ac w))
            = encode_row_u cc row (stepping_u cc before (encode_begin_u ac w))"
    using e2 by (simp add: stepping_append stepping_u_append)
  obtain l w1 rs fs bs where e: "stepping_u cc before (encode_begin_u ac w) = (l, w1)"
    and i: "inv l w1 (begin_slots (ac_statement ac) w @ concat rs) fs bs"
    using encode_rows_step[OF assms(1,2,3), of cc before] by blast
  obtain l' w' r where e': "encode_row_u cc row (l, w1) = (l', w')"
    and s: "stepped (cells_in_place_u (cells cc row) (l, w1)) l w1
              (begin_slots (ac_statement ac) w @ concat rs) l' w' r"
    and rs: "row_slots cc row r"
    using encode_row_step[OF i, of cc row] by blast
  obtain fs' bs' where i': "inv l' w' ((begin_slots (ac_statement ac) w @ concat rs) @ r) fs' bs'"
    using stepped_inv[OF s] by blast
  have "buffer (l', w') = buffer (l, w1) @ r"
    using buffer_inv[OF i] buffer_inv[OF i'] by simp
  moreover have "\<not> crashed w'" using i' by (simp add: inv_def)
  ultimately show ?thesis
    unfolding e3[unfolded e1] e1 using rs e e' by (auto simp: row_slots_def encode_null)
qed

theorem null_cells_keep_row_arity_witness:
  "fresh (start_world (demo_drv (\<lambda>c. Compiled (Some demo_nulls))) (\<lambda>k. True)) \<and>
   \<not> crashed (start_world (demo_drv (\<lambda>c. Compiled (Some demo_nulls))) (\<lambda>k. True)) \<and>
   ac_term_count (new_command 1 (Some (prepared 0 demo_nulls))) = 0 \<and>
   ac_row_count (new_command 1 (Some (prepared 0 demo_nulls))) = 0 \<and>
   int (length (begin_slots (ac_statement (new_command 1 (Some (prepared 0 demo_nulls))))
                  (start_world (demo_drv (\<lambda>c. Compiled (Some demo_nulls))) (\<lambda>k. True)))) +
     int (sum_list (map (row_cells 2)
            ([[SQLITE_FLOAT 0x3FF8000000000000, SQLITE_NULL]] @ [[SQLITE_NULL, SQLITE_INTEGER 7]])))
     \<le> INT_MAX \<and>
   encode_column SQLITE_NULL
     (encode_begin (new_command 1 (Some (prepared 0 demo_nulls)))
        (start_world (demo_drv (\<lambda>c. Compiled (Some demo_nulls))) (\<lambda>k. True)))
     = encode_begin (new_command 1 (Some (prepared 0 demo_nulls)))
         (start_world (demo_drv (\<lambda>c. Compiled (Some demo_nulls))) (\<lambda>k. True)) \<and>
   (\<exists>vals.
      buffer (encode_row 2 [SQLITE_NULL, SQLITE_INTEGER 7]
               (stepping 2 [[SQLITE_FLOAT 0x3FF8000000000000, SQLITE_NULL]]
                  (encode_begin (new_command 1 (Some (prepared 0 demo_nulls)))
                     (start_world (demo_drv (\<lambda>c. Compiled (Some demo_nulls))) (\<lambda>k. True)))))
        = buffer (stepping 2 [[SQLITE_FLOAT 0x3FF8000000000000, SQLITE_NULL]]
                    (encode_begin (new_command 1 (Some (prepared 0 demo_nulls)))
                       (start_world (demo_drv (\<lambda>c. Compiled (Some demo_nulls))) (\<lambda>k. True)))) @ vals @
          [Tag ERL_DRV_TUPLE, Num 2] \<and>
      length vals = 2) \<and>
   \<not> crashed (snd (encode_row 2 [SQLITE_NULL, SQLITE_INTEGER 7]
               (stepping 2 [[SQLITE_FLOAT 0x3FF8000000000000, SQLITE_NULL]]
                  (encode_begin (new_command 1 (Some (prepared 0 demo_nulls)))
                     (start_world (demo_drv (\<lambda>c. Compiled (Some demo_nulls))) (\<lambda>k. True))))))"
proof -
  let ?w = "start_world (demo_drv (\<lambda>c. Compiled (Some demo_nulls))) (\<lambda>k. True)"
  let ?ac = "new_command 1 (Some (prepared 0 demo_nulls))"
  have t: "ac_term_count ?ac = 0" "ac_row_count ?ac = 0"
    by (simp_all add: new_command_def)
  have b: "int (length (begin_slots (ac_statement ?ac) ?w)) +
     int (sum_list (map (row_cells 2)
            ([[SQLITE_FLOAT 0x3FF8000000000000, SQLITE_NULL]] @ [[SQLITE_NULL, SQLITE_INTEGER 7]])))
     \<le> INT_MAX"
    by (simp add: length_begin_slots new_command_def demo_nulls_def row_cells_def cells_def
          column_def INT_MAX_def eval_nat_numeral)
  have c: "sum_list (map slot_width (cells 2 [SQLITE_NULL, SQLITE_INTEGER 7])) = 2"
    by (simp add: cells_def column_def eval_nat_numeral)
  show ?thesis
    using t b null_cells_keep_row_arity[OF fresh_start_world crashed_start_world t b,
        where s = "encode_begin ?ac ?w"]
    unfolding c by simp
qed

text \<open>
  C6, as the code has it. When a statement with columns is stepped to \<open>SQLITE_DONE\<close>,
  the buffer handed over holds, after the two headers, the slots of the rows that
  \<open>sqlite3_step\<close> returned, and then the list marker \<open>ERL_DRV_LIST\<close> with the number of
  rows plus one: the count includes the list's tail \<open>ERL_DRV_NIL\<close>. If every row has a
  value in every column, the float pool stays where it is and the slots written number
  at most \<open>INT_MAX\<close>, the VM reads the rows' slots as one tuple per row, holding the
  row's cells, in the order of the steps; the whole buffer is the reply with that list
  of tuples, the record's \<open>row_count\<close> is the number of rows and its \<open>term_count\<close>
  is \<open>encoded_cells\<close>, the number that the bound is about.
\<close>

theorem row_tuples_match_steps:
  assumes "fresh w" "\<not> crashed w" "ac_term_count ac = 0" "ac_row_count ac = 0"
    and "0 < sqlite3_column_count (ac_statement ac)"
    and "step_final (ac_statement ac) = SQLITE_DONE"
    and "encoded_cells (sqlite3_column_count (ac_statement ac)) (step_rows (ac_statement ac))
           (step_final (ac_statement ac)) \<le> INT_MAX"
    and "rows_in_place (sqlite3_column_count (ac_statement ac)) (step_rows (ac_statement ac))
           (encode_begin ac w)"
    and "list_all (whole (sqlite3_column_count (ac_statement ac))) (step_rows (ac_statement ac))"
  shows "\<exists>body.
           handed (sql_exec_async ac w)
             = begin_slots (ac_statement ac) w @ body @
               [Tag ERL_DRV_NIL, Tag ERL_DRV_LIST,
                Num (of_int (int (length (step_rows (ac_statement ac))) + 1)),
                Tag ERL_DRV_TUPLE, Num 2, Tag ERL_DRV_NIL, Tag ERL_DRV_LIST, Num 3,
                Tag ERL_DRV_TUPLE, Num 2] \<and>
           (\<forall>stk. driver_term (heap (snd (sql_exec_async ac w))) body stk
                  = Some (rev (map (row_term (sqlite3_column_count (ac_statement ac)))
                                 (step_rows (ac_statement ac))) @ stk)) \<and>
           decode (heap (snd (sql_exec_async ac w))) (handed (sql_exec_async ac w))
             = Some (ETuple [EPort (port (drv w)),
                  elist [ETuple [EAtom ''columns'', elist (column_atoms (ac_statement ac))],
                         ETuple [EAtom ''rows'',
                           elist (map (row_term (sqlite3_column_count (ac_statement ac)))
                                    (step_rows (ac_statement ac)))]]]) \<and>
           ac_row_count (fst (sql_exec_async ac w)) = int (length (step_rows (ac_statement ac))) \<and>
           ac_term_count (fst (sql_exec_async ac w))
             = encoded_cells (sqlite3_column_count (ac_statement ac)) (step_rows (ac_statement ac))
                 (step_final (ac_statement ac)) \<and>
           \<not> crashed (snd (sql_exec_async ac w))"
proof -
  let ?st = "ac_statement ac"
  let ?cc = "sqlite3_column_count ?st"
  let ?rows = "step_rows ?st"
  obtain ac' w' l rs fs bs where run: "sql_exec_async ac w = (ac', w')"
    and rs: "list_all2 (row_slots ?cc) ?rows rs"
    and i: "inv l w' (begin_slots ?st w @ concat rs @ reply_tail ?st (int (length ?rows))) fs bs"
    and a: "ac_dataset ac' = dataset l" "ac_term_count ac' = term_count l"
    and rc: "ac_row_count ac' = int (length ?rows)"
    and d: "\<forall>stk. driver_term (heap w') (concat rs) stk = Some (rev (map (row_term ?cc) ?rows) @ stk)"
    using sql_exec_async_rows[OF assms(1-7)] assms(8,9) by blast
  have lens: "?cc < 2 ^ 31" "length ?rows < 2 ^ 31"
    using encoded_cells_bounds[OF assms(7,5)] by simp_all
  have hd: "handed (ac', w') = begin_slots ?st w @ concat rs @ reply_tail ?st (int (length ?rows))"
    by (rule handed_inv[OF i a])
  have tl: "reply_tail ?st (int (length ?rows))
            = [Tag ERL_DRV_NIL, Tag ERL_DRV_LIST, Num (of_int (int (length ?rows) + 1)),
               Tag ERL_DRV_TUPLE, Num 2, Tag ERL_DRV_NIL, Tag ERL_DRV_LIST, Num 3,
               Tag ERL_DRV_TUPLE, Num 2]"
    using assms(5) by (simp add: reply_tail_def)
  have dec: "decode (heap w') (begin_slots ?st w @ concat rs @
               reply_tail ?st (int (length (map (row_term ?cc) ?rows))))
         = Some (ETuple [EPort (port (drv w)),
                   elist [ETuple [EAtom ''columns'', elist (column_atoms ?st)],
                          ETuple [EAtom ''rows'', elist (map (row_term ?cc) ?rows)]]])"
    by (rule decode_rows_reply) (use assms(5) lens d in simp_all)
  have nc: "\<not> crashed w'" using i by (simp add: inv_def)
  have "term_count l = int (length (begin_slots ?st w @ concat rs @
                          reply_tail ?st (int (length ?rows))))"
    using i by (simp add: inv_def)
  then have tc: "ac_term_count ac' = encoded_cells ?cc ?rows (step_final ?st)"
    using a(2) assms(5,6) length_begin_slots[of ?st w] length_rows_slots[OF rs]
    by (simp add: tl encoded_cells_def)
  show ?thesis
    unfolding run
    using hd[unfolded tl] d dec[unfolded length_map, folded hd] rc tc nc
    by (intro exI[of _ "concat rs"]) simp
qed

theorem row_tuples_match_steps_witness:
  "fresh (start_world (demo_drv (\<lambda>c. Compiled (Some demo_select))) (\<lambda>k. True)) \<and>
   \<not> crashed (start_world (demo_drv (\<lambda>c. Compiled (Some demo_select))) (\<lambda>k. True)) \<and>
   ac_term_count (new_command 1 (Some (prepared 0 demo_select))) = 0 \<and>
   ac_row_count (new_command 1 (Some (prepared 0 demo_select))) = 0 \<and>
   0 < sqlite3_column_count (ac_statement (new_command 1 (Some (prepared 0 demo_select)))) \<and>
   step_final (ac_statement (new_command 1 (Some (prepared 0 demo_select)))) = SQLITE_DONE \<and>
   encoded_cells 1 [[SQLITE_INTEGER 42]] SQLITE_DONE \<le> INT_MAX \<and>
   rows_in_place 1 [[SQLITE_INTEGER 42]]
     (encode_begin (new_command 1 (Some (prepared 0 demo_select)))
        (start_world (demo_drv (\<lambda>c. Compiled (Some demo_select))) (\<lambda>k. True))) \<and>
   list_all (whole 1) [[SQLITE_INTEGER 42]] \<and>
   (\<exists>body.
      handed (sql_exec_async (new_command 1 (Some (prepared 0 demo_select)))
                (start_world (demo_drv (\<lambda>c. Compiled (Some demo_select))) (\<lambda>k. True)))
        = begin_slots (Some (prepared 0 demo_select))
            (start_world (demo_drv (\<lambda>c. Compiled (Some demo_select))) (\<lambda>k. True)) @ body @
          [Tag ERL_DRV_NIL, Tag ERL_DRV_LIST, Num 2, Tag ERL_DRV_TUPLE, Num 2,
           Tag ERL_DRV_NIL, Tag ERL_DRV_LIST, Num 3, Tag ERL_DRV_TUPLE, Num 2] \<and>
      (\<forall>stk. driver_term
               (heap (snd (sql_exec_async (new_command 1 (Some (prepared 0 demo_select)))
                  (start_world (demo_drv (\<lambda>c. Compiled (Some demo_select))) (\<lambda>k. True)))))
               body stk
             = Some (ETuple [EInt 42] # stk)) \<and>
      decode (heap (snd (sql_exec_async (new_command 1 (Some (prepared 0 demo_select)))
                (start_world (demo_drv (\<lambda>c. Compiled (Some demo_select))) (\<lambda>k. True)))))
          (handed (sql_exec_async (new_command 1 (Some (prepared 0 demo_select)))
                (start_world (demo_drv (\<lambda>c. Compiled (Some demo_select))) (\<lambda>k. True))))
        = Some (ETuple [EPort 7,
             elist [ETuple [EAtom ''columns'', elist [EAtom ''42'']],
                    ETuple [EAtom ''rows'', elist [ETuple [EInt 42]]]]]) \<and>
      ac_row_count (fst (sql_exec_async (new_command 1 (Some (prepared 0 demo_select)))
                (start_world (demo_drv (\<lambda>c. Compiled (Some demo_select))) (\<lambda>k. True)))) = 1 \<and>
      ac_term_count (fst (sql_exec_async (new_command 1 (Some (prepared 0 demo_select)))
                (start_world (demo_drv (\<lambda>c. Compiled (Some demo_select))) (\<lambda>k. True)))) = 27 \<and>
      \<not> crashed (snd (sql_exec_async (new_command 1 (Some (prepared 0 demo_select)))
                (start_world (demo_drv (\<lambda>c. Compiled (Some demo_select))) (\<lambda>k. True)))))"
proof -
  let ?w = "start_world (demo_drv (\<lambda>c. Compiled (Some demo_select))) (\<lambda>k. True)"
  let ?ac = "new_command 1 (Some (prepared 0 demo_select))"
  have s: "ac_statement ?ac = Some (prepared 0 demo_select)" by (simp add: new_command_def)
  have h: "ac_term_count ?ac = 0" "ac_row_count ?ac = 0"
    "0 < sqlite3_column_count (ac_statement ?ac)"
    "step_final (ac_statement ?ac) = SQLITE_DONE"
    "encoded_cells (sqlite3_column_count (ac_statement ?ac)) (step_rows (ac_statement ?ac))
           (step_final (ac_statement ?ac)) \<le> INT_MAX"
    "rows_in_place (sqlite3_column_count (ac_statement ?ac)) (step_rows (ac_statement ?ac))
           (encode_begin ?ac ?w)"
    "list_all (whole (sqlite3_column_count (ac_statement ?ac))) (step_rows (ac_statement ?ac))"
    by (simp_all add: new_command_def demo_select_def encoded_cells_def row_cells_def cells_def
          column_def cell_in_place_def whole_def INT_MAX_def)
  have v: "sqlite3_column_int 42 = 42" by (simp add: sqlite3_column_int_def)
  have r: "row_term 1 [SQLITE_INTEGER 42] = ETuple [EInt 42]"
    by (simp add: row_term_def cells_def column_def v)
  have sa: "sqlite3_column_count (Some (prepared 0 demo_select)) = 1"
    "step_rows (Some (prepared 0 demo_select)) = [[SQLITE_INTEGER 42]]"
    "step_final (Some (prepared 0 demo_select)) = SQLITE_DONE"
    "column_atoms (Some (prepared 0 demo_select)) = [EAtom ''42'']"
    "port (drv ?w) = 7"
    by (simp_all add: demo_select_def column_atoms_Some start_world_def demo_drv_def)
  have n: "encoded_cells 1 [[SQLITE_INTEGER 42]] SQLITE_DONE = 27"
    by (simp add: encoded_cells_def row_cells_def cells_def column_def)
  note th = row_tuples_match_steps[OF fresh_start_world crashed_start_world h]
  show ?thesis
    using h(1-4) h(5-7)[unfolded s sa] th[unfolded s sa n]
    by (simp add: r del: statement_simps)
qed

theorem null_row_is_counted_but_not_encoded:
  "handed (sql_exec_async (new_command 1 (Some (prepared 0 demo_null)))
             (start_world (demo_drv (\<lambda>c. Compiled (Some demo_null))) (\<lambda>k. False)))
     = [Tag ERL_DRV_PORT, Port 7,
        Tag ERL_DRV_ATOM, Atom ''columns'', Tag ERL_DRV_ATOM, Atom ''NULL'',
        Tag ERL_DRV_NIL, Tag ERL_DRV_LIST, Num 2, Tag ERL_DRV_TUPLE, Num 2,
        Tag ERL_DRV_ATOM, Atom ''rows'',
        Tag ERL_DRV_TUPLE, Num 1,
        Tag ERL_DRV_NIL, Tag ERL_DRV_LIST, Num 2, Tag ERL_DRV_TUPLE, Num 2,
        Tag ERL_DRV_NIL, Tag ERL_DRV_LIST, Num 3, Tag ERL_DRV_TUPLE, Num 2] \<and>
   ac_row_count (fst (sql_exec_async (new_command 1 (Some (prepared 0 demo_null)))
             (start_world (demo_drv (\<lambda>c. Compiled (Some demo_null))) (\<lambda>k. False)))) = 1 \<and>
   decode (heap (snd (sql_exec_async (new_command 1 (Some (prepared 0 demo_null)))
             (start_world (demo_drv (\<lambda>c. Compiled (Some demo_null))) (\<lambda>k. False)))))
     (handed (sql_exec_async (new_command 1 (Some (prepared 0 demo_null)))
             (start_world (demo_drv (\<lambda>c. Compiled (Some demo_null))) (\<lambda>k. False))))
     = None"
proof -
  let ?w = "start_world (demo_drv (\<lambda>c. Compiled (Some demo_null))) (\<lambda>k. False)"
  obtain ac' w' where run: "sql_exec_async (new_command 1 (Some (prepared 0 demo_null))) ?w = (ac', w')"
    and r: "handed (ac', w')
       = [Tag ERL_DRV_PORT, Port (port (drv ?w)),
          Tag ERL_DRV_ATOM, Atom ''columns'', Tag ERL_DRV_ATOM, Atom ''NULL'',
          Tag ERL_DRV_NIL, Tag ERL_DRV_LIST, Num 2, Tag ERL_DRV_TUPLE, Num 2,
          Tag ERL_DRV_ATOM, Atom ''rows'',
          Tag ERL_DRV_TUPLE, Num 1,
          Tag ERL_DRV_NIL, Tag ERL_DRV_LIST, Num 2, Tag ERL_DRV_TUPLE, Num 2,
          Tag ERL_DRV_NIL, Tag ERL_DRV_LIST, Num 3, Tag ERL_DRV_TUPLE, Num 2]"
      "ac_row_count ac' = 1" "decode (heap w') (handed (ac', w')) = None"
    using select_null_run[OF fresh_start_world crashed_start_world, where a = 1 and h = 0] by blast
  have p: "port (drv ?w) = 7" by (simp add: start_world_def demo_drv_def)
  show ?thesis unfolding run using r p by simp
qed

text \<open>
  C7. When \<open>sqlite3_step\<close> ends with \<open>SQLITE_BUSY\<close>, the owner of the port receives
  \<open>{error, "SQLite3 database is busy"}\<close>; when it ends with any other code that is not
  \<open>SQLITE_DONE\<close>, it receives \<open>{error, Msg}\<close> with the connection's message
  (\<open>sqlite3_errmsg\<close>, a C string). This covers the statement of an empty command, for
  which \<open>sqlite3_prepare_v2\<close> succeeds with a NULL handle and \<open>sqlite3_step\<close> answers
  \<open>SQLITE_MISUSE\<close>: the message is then the one the connection already holds. In all
  cases \<open>sql_exec\<close> returns with no undefined behaviour, whatever the allocator does:
  every block that \<open>sql_free_async\<close> releases is live when it is released, and no
  counter overflows, the slots written for the rows stepped before the failure being at
  most \<open>INT_MAX\<close>.
\<close>

theorem step_failure_replies_error:
  assumes "fresh w" "\<not> crashed w" "db (drv w) command = Compiled q"
    and "case q of
           None \<Rightarrow> c_string (db_errmsg w)
         | Some p \<Rightarrow> final p \<noteq> SQLITE_DONE \<and> c_string (step_errmsg p) \<and>
             encoded_cells (int (length (column_names p))) (rows p) (final p) \<le> INT_MAX"
  shows "sent (snd (sql_exec command w))
           = sent w @ [(port (drv w), ETuple [EAtom ''error'',
                 estring (case q of
                            None \<Rightarrow> db_errmsg w
                          | Some p \<Rightarrow> if final p = SQLITE_BUSY then ''SQLite3 database is busy''
                                      else step_errmsg p)])] \<and>
         \<not> crashed (snd (sql_exec command w))"
proof (cases q)
  case None
  have st: "statement_of w q = None" using None by (simp add: statement_of_def)
  have m: "failure_message None w = db_errmsg w"
    by (simp add: failure_message_def step_final_def sqlite3_errmsg_def after_stepping_def
          SQLITE_MISUSE_def SQLITE_BUSY_def)
  have h: "step_final (statement_of w q) \<noteq> SQLITE_DONE"
    "c_string (failure_message (statement_of w q) w)"
    "encoded_cells (sqlite3_column_count (statement_of w q)) (step_rows (statement_of w q))
           (step_final (statement_of w q)) \<le> INT_MAX"
    using assms(4) None unfolding st m
    by (simp_all add: step_final_def step_rows_def sqlite3_column_count_def SQLITE_MISUSE_def
          SQLITE_DONE_def encoded_cells_def INT_MAX_def)
  show ?thesis
    using sql_exec_failed[OF assms(1-3) h] None unfolding st m by simp
next
  case (Some p)
  have st: "statement_of w q = Some (prepared (brk w) p)" using Some by (simp add: statement_of_def)
  have m: "failure_message (Some (prepared (brk w) p)) w
           = (if final p = SQLITE_BUSY then ''SQLite3 database is busy'' else step_errmsg p)"
    by (simp add: failure_message_def sqlite3_errmsg_def after_stepping_def)
  have h: "step_final (statement_of w q) \<noteq> SQLITE_DONE"
    "c_string (failure_message (statement_of w q) w)"
    "encoded_cells (sqlite3_column_count (statement_of w q)) (step_rows (statement_of w q))
           (step_final (statement_of w q)) \<le> INT_MAX"
    using assms(4) Some c_string_busy unfolding st m by simp_all
  show ?thesis
    using sql_exec_failed[OF assms(1-3) h] Some unfolding st m by simp
qed

theorem step_failure_replies_error_witness:
  "fresh (start_world (demo_drv (\<lambda>c. Compiled (Some demo_busy))) (\<lambda>k. True)) \<and>
   \<not> crashed (start_world (demo_drv (\<lambda>c. Compiled (Some demo_busy))) (\<lambda>k. True)) \<and>
   db (drv (start_world (demo_drv (\<lambda>c. Compiled (Some demo_busy))) (\<lambda>k. True)))
      ''UPDATE t SET a = 1'' = Compiled (Some demo_busy) \<and>
   final demo_busy \<noteq> SQLITE_DONE \<and> c_string (step_errmsg demo_busy) \<and>
   encoded_cells (int (length (column_names demo_busy))) (rows demo_busy) (final demo_busy)
     \<le> INT_MAX \<and>
   sent (snd (sql_exec ''UPDATE t SET a = 1''
                (start_world (demo_drv (\<lambda>c. Compiled (Some demo_busy))) (\<lambda>k. True))))
     = [(7, ETuple [EAtom ''error'', estring ''SQLite3 database is busy''])] \<and>
   \<not> crashed (snd (sql_exec ''UPDATE t SET a = 1''
                (start_world (demo_drv (\<lambda>c. Compiled (Some demo_busy))) (\<lambda>k. True)))) \<and>
   db (drv (start_world (demo_drv (\<lambda>c. Compiled (Some demo_constraint))) (\<lambda>k. True)))
      ''INSERT INTO t VALUES (1)'' = Compiled (Some demo_constraint) \<and>
   final demo_constraint \<noteq> SQLITE_DONE \<and> final demo_constraint \<noteq> SQLITE_BUSY \<and>
   c_string (step_errmsg demo_constraint) \<and>
   encoded_cells (int (length (column_names demo_constraint))) (rows demo_constraint)
     (final demo_constraint) \<le> INT_MAX \<and>
   sent (snd (sql_exec ''INSERT INTO t VALUES (1)''
                (start_world (demo_drv (\<lambda>c. Compiled (Some demo_constraint))) (\<lambda>k. True))))
     = [(7, ETuple [EAtom ''error'', estring ''UNIQUE constraint failed: t.a''])] \<and>
   \<not> crashed (snd (sql_exec ''INSERT INTO t VALUES (1)''
                (start_world (demo_drv (\<lambda>c. Compiled (Some demo_constraint))) (\<lambda>k. True)))) \<and>
   db (drv ((start_world (demo_drv (\<lambda>c. Compiled None)) (\<lambda>k. True))\<lparr>db_errmsg := ''not an error''\<rparr>))
      [] = Compiled None \<and>
   c_string (db_errmsg ((start_world (demo_drv (\<lambda>c. Compiled None)) (\<lambda>k. True))\<lparr>db_errmsg := ''not an error''\<rparr>)) \<and>
   sent (snd (sql_exec []
                ((start_world (demo_drv (\<lambda>c. Compiled None)) (\<lambda>k. True))\<lparr>db_errmsg := ''not an error''\<rparr>)))
     = [(7, ETuple [EAtom ''error'', estring ''not an error''])] \<and>
   \<not> crashed (snd (sql_exec []
                ((start_world (demo_drv (\<lambda>c. Compiled None)) (\<lambda>k. True))\<lparr>db_errmsg := ''not an error''\<rparr>)))"
proof -
  let ?b = "start_world (demo_drv (\<lambda>c. Compiled (Some demo_busy))) (\<lambda>k. True)"
  let ?c = "start_world (demo_drv (\<lambda>c. Compiled (Some demo_constraint))) (\<lambda>k. True)"
  let ?n = "(start_world (demo_drv (\<lambda>c. Compiled None)) (\<lambda>k. True))\<lparr>db_errmsg := ''not an error''\<rparr>"
  have hb: "db (drv ?b) ''UPDATE t SET a = 1'' = Compiled (Some demo_busy)"
    "case Some demo_busy of
           None \<Rightarrow> c_string (db_errmsg ?b)
         | Some p \<Rightarrow> final p \<noteq> SQLITE_DONE \<and> c_string (step_errmsg p) \<and>
             encoded_cells (int (length (column_names p))) (rows p) (final p) \<le> INT_MAX"
    using c_string_demo
    by (simp_all add: demo_busy_def SQLITE_BUSY_def SQLITE_DONE_def encoded_cells_def INT_MAX_def
          start_world_def demo_drv_def)
  have hc: "db (drv ?c) ''INSERT INTO t VALUES (1)'' = Compiled (Some demo_constraint)"
    "case Some demo_constraint of
           None \<Rightarrow> c_string (db_errmsg ?c)
         | Some p \<Rightarrow> final p \<noteq> SQLITE_DONE \<and> c_string (step_errmsg p) \<and>
             encoded_cells (int (length (column_names p))) (rows p) (final p) \<le> INT_MAX"
    using c_string_demo
    by (simp_all add: demo_constraint_def SQLITE_DONE_def encoded_cells_def INT_MAX_def
          start_world_def demo_drv_def)
  have hn: "db (drv ?n) [] = Compiled None"
    "case (None :: program option) of
           None \<Rightarrow> c_string (db_errmsg ?n)
         | Some p \<Rightarrow> final p \<noteq> SQLITE_DONE \<and> c_string (step_errmsg p) \<and>
             encoded_cells (int (length (column_names p))) (rows p) (final p) \<le> INT_MAX"
    using c_string_not_an_error by (simp_all add: start_world_def demo_drv_def)
  have fn: "fresh ?n" "\<not> crashed ?n" by (simp_all add: fresh_def start_world_def)
  have v: "final demo_busy = SQLITE_BUSY" "final demo_constraint \<noteq> SQLITE_BUSY"
    "step_errmsg demo_constraint = ''UNIQUE constraint failed: t.a''"
    by (simp_all add: demo_busy_def demo_constraint_def SQLITE_BUSY_def)
  have s: "sent ?b = []" "port (drv ?b) = 7" "sent ?c = []" "port (drv ?c) = 7"
    "sent ?n = []" "port (drv ?n) = 7" "db_errmsg ?n = ''not an error''"
    by (simp_all add: start_world_def demo_drv_def)
  show ?thesis
    using hb hc hn v(2)
      step_failure_replies_error[OF fresh_start_world crashed_start_world hb]
      step_failure_replies_error[OF fresh_start_world crashed_start_world hc]
      step_failure_replies_error[OF fn hn]
    by (simp add: v s)
qed



text \<open>
  C9. On the two error exits of \<open>sql_exec_async\<close> (lines 255-262) \<open>return_error\<close>
  stores a new buffer in \<open>async_command->dataset\<close>, and the buffer that the encoder has
  built so far is held only by the local variable \<open>dataset\<close>. \<open>sql_free_async\<close>
  releases the record's buffer, so the encoder's buffer is never released: started on an
  empty heap, a statement that is busy leaves the block \<open>[ERL_DRV_PORT, port]\<close> behind.
\<close>

theorem busy_exit_leaks_term_buffer:
  "\<exists>d. heap (snd (sql_exec ''UPDATE t SET a = 1''
                    (start_world (demo_drv (\<lambda>c. Compiled (Some demo_busy))) (\<lambda>k. False)))) d
        = Some (Array [Tag ERL_DRV_PORT, Port 7])"
proof -
  let ?w = "start_world (demo_drv (\<lambda>c. Compiled (Some demo_busy))) (\<lambda>k. False)"
  let ?st = "statement_of ?w (Some demo_busy)"
  have st: "?st = Some (prepared (brk ?w) demo_busy)" by (simp add: statement_of_def)
  have m: "failure_message (Some (prepared (brk ?w) demo_busy)) ?w = ''SQLite3 database is busy''"
    by (simp add: failure_message_def demo_busy_def)
  have hb: "db (drv ?w) ''UPDATE t SET a = 1'' = Compiled (Some demo_busy)"
    "step_final ?st \<noteq> SQLITE_DONE" "c_string (failure_message ?st ?w)"
    "encoded_cells (sqlite3_column_count ?st) (step_rows ?st) (step_final ?st) \<le> INT_MAX"
    unfolding st m using c_string_busy
    by (simp_all add: demo_busy_def SQLITE_BUSY_def SQLITE_DONE_def encoded_cells_def INT_MAX_def
          start_world_def demo_drv_def)
  obtain d rs where rs: "list_all2 (row_slots (sqlite3_column_count ?st)) (step_rows ?st) rs"
    and h: "heap (snd (sql_exec ''UPDATE t SET a = 1'' ?w)) d
            = Some (Array (begin_slots ?st ?w @ concat rs))"
    using sql_exec_failed[OF fresh_start_world crashed_start_world hb] by blast
  have "rs = []" using rs unfolding st by (simp add: demo_busy_def)
  moreover have "begin_slots ?st ?w = [Tag ERL_DRV_PORT, Port 7]"
    unfolding st by (simp add: begin_slots_def demo_busy_def start_world_def demo_drv_def)
  ultimately show ?thesis using h by auto
qed

text \<open>
  C10. The float slot holds the address \<open>&floats[float_count - 1]\<close> (line 217), and
  the next float cell grows the pool with \<open>realloc\<close> (line 211), which may move it.
  With two rows of one float cell each and an allocator that moves every block it
  grows, the buffer handed to \<open>ready_async\<close> holds a pointer into a block that has been
  released: the slot of the first row points into the pool as it was before the second
  row.
\<close>

theorem float_slot_dangles_after_pool_moves:
  "\<exists>a i. FloatPtr a i \<in> set (handed (sql_exec_async
                 (new_command 1 (Some (prepared 0 demo_floats)))
                 (dispatched (start_world (demo_drv (\<lambda>c. Compiled (Some demo_floats))) (\<lambda>k. True))))) \<and>
         heap (snd (sql_exec_async
                 (new_command 1 (Some (prepared 0 demo_floats)))
                 (dispatched (start_world (demo_drv (\<lambda>c. Compiled (Some demo_floats))) (\<lambda>k. True))))) a
           = None"
proof -
  let ?w = "start_world (demo_drv (\<lambda>c. Compiled (Some demo_floats))) (\<lambda>k. True)"
  let ?ac = "new_command 1 (Some (prepared 0 demo_floats))"
  have b: "sql_exec_async ?ac (dispatched ?w) = sql_exec_async_u ?ac (dispatched ?w)"
    by (rule sql_exec_async_bounded)
       (simp_all add: new_command_def demo_floats_def encoded_cells_def row_cells_def cells_def
          column_def INT_MAX_def)
  show ?thesis
    unfolding b
  proof (rule second_float_row_dangles)
    show "fresh (dispatched ?w)" by (simp add: dispatched_facts)
    show "\<not> crashed (dispatched ?w)" by (simp add: dispatched_facts)
    show "ac_term_count ?ac = 0" by (simp add: new_command_def)
    show "ac_statement ?ac = Some (prepared 0 demo_floats)" by (simp add: new_command_def)
    show "column_names (prepared 0 demo_floats) = [''x'']" by (simp add: demo_floats_def)
    show "rows (prepared 0 demo_floats)
          = [[SQLITE_FLOAT 0x3FF8000000000000], [SQLITE_FLOAT 0x4004000000000000]]"
      by (simp add: demo_floats_def)
    show "final (prepared 0 demo_floats) = SQLITE_DONE" by (simp add: demo_floats_def)
    show "\<forall>k. relocates (dispatched ?w) k" by (simp add: dispatched_facts start_world_def)
  qed
qed

end
